theory Spec2Isabelle
  imports Complex_Main "HOL-Library.AList" "HOL-Library.Sublist"
begin

section \<open>Experience scorer\<close>

text \<open>
  \<^verbatim>\<open>calculateExperienceLevel(totalCommits, onTimePercentage, messageQuality, consistency)\<close>
  adds four tiered contributions to a score and maps the score to a level.  The
  arguments are JavaScript numbers; they are modelled as reals.  The four blocks of the
  source, headed by the comments \<^verbatim>\<open>Commit volume (40)\<close>, \<^verbatim>\<open>Work pattern (15)\<close>,
  \<^verbatim>\<open>Message quality (25)\<close> and \<^verbatim>\<open>Consistency (20)\<close>, are one function each.
\<close>

record experience =
  level :: string
  tone :: string
  score :: nat

definition volumePoints :: "real \<Rightarrow> nat" where
  "volumePoints totalCommits =
     (if totalCommits > 200 then 40
      else if totalCommits > 150 then 35
      else if totalCommits > 100 then 30
      else if totalCommits > 50 then 25
      else 10)"

definition patternPoints :: "real \<Rightarrow> nat" where
  "patternPoints onTimePercentage =
     (if onTimePercentage \<ge> 60 then 15
      else if onTimePercentage \<ge> 50 then 10
      else if onTimePercentage \<ge> 30 then 5
      else 2)"

definition qualityPoints :: "real \<Rightarrow> nat" where
  "qualityPoints messageQuality =
     (if messageQuality \<ge> 50 then 25
      else if messageQuality \<ge> 40 then 20
      else if messageQuality \<ge> 30 then 15
      else 10)"

definition consistencyPoints :: "real \<Rightarrow> real \<Rightarrow> nat" where
  "consistencyPoints consistency totalCommits =
     (if consistency \<ge> 70 \<and> totalCommits > 100 then 20
      else if consistency \<ge> 60 \<and> totalCommits > 50 then 15
      else if consistency \<ge> 40 \<and> totalCommits > 20 then 10
      else 5)"

definition levelOf :: "nat \<Rightarrow> experience" where
  "levelOf s =
     (if s \<ge> 80 then \<lparr>level = ''Senior'', tone = ''purple'', score = s\<rparr>
      else if s \<ge> 60 then \<lparr>level = ''Mid-Level'', tone = ''blue'', score = s\<rparr>
      else if s \<ge> 40 then \<lparr>level = ''Junior'', tone = ''green'', score = s\<rparr>
      else \<lparr>level = ''Beginner'', tone = ''yellow'', score = s\<rparr>)"

definition calculateExperienceLevel :: "real \<Rightarrow> real \<Rightarrow> real \<Rightarrow> real \<Rightarrow> experience" where
  "calculateExperienceLevel totalCommits onTimePercentage messageQuality consistency =
     (let score = 0;
          score = score + volumePoints totalCommits;
          score = score + patternPoints onTimePercentage;
          score = score + qualityPoints messageQuality;
          score = score + consistencyPoints consistency totalCommits
      in levelOf score)"

text \<open>
  The second source file carries an older copy of the scorer with another policy table:
  commit volume is worth 35, 30, 25, 20 or 10 and message quality 30, 25, 20 or 15.
  The work-pattern and consistency blocks and the level thresholds are the same.
\<close>

definition volumePoints_v1 :: "real \<Rightarrow> nat" where
  "volumePoints_v1 totalCommits =
     (if totalCommits > 200 then 35
      else if totalCommits > 150 then 30
      else if totalCommits > 100 then 25
      else if totalCommits > 50 then 20
      else 10)"

definition qualityPoints_v1 :: "real \<Rightarrow> nat" where
  "qualityPoints_v1 messageQuality =
     (if messageQuality \<ge> 50 then 30
      else if messageQuality \<ge> 40 then 25
      else if messageQuality \<ge> 30 then 20
      else 15)"

definition calculateExperienceLevel_v1 :: "real \<Rightarrow> real \<Rightarrow> real \<Rightarrow> real \<Rightarrow> experience" where
  "calculateExperienceLevel_v1 totalCommits onTimePercentage messageQuality consistency =
     (let score = 0;
          score = score + volumePoints_v1 totalCommits;
          score = score + patternPoints onTimePercentage;
          score = score + qualityPoints_v1 messageQuality;
          score = score + consistencyPoints consistency totalCommits
      in levelOf score)"

section \<open>Strings\<close>

text \<open>
  A JavaScript string is a sequence of 16-bit code units; an HTTP header value holds code
  units below 256 only.  Strings are modelled as lists of 8-bit characters, one character
  per code unit.  None of the functions below tells two code units above 127 apart,
  except for the no-break space 160, which \<^verbatim>\<open>trim\<close> removes; a code unit above 255
  in a commit message stands as any character above 127 other than 160.

  \<^verbatim>\<open>isSpace\<close> is the white space and line terminator set of \<^verbatim>\<open>String.prototype.trim\<close>
  restricted to 8 bits: tab, line feed, vertical tab, form feed, carriage return, space
  and no-break space.  \<^verbatim>\<open>split_on\<close> is \<^verbatim>\<open>split\<close> with a separator of one character:
  it returns at least one part, and the parts are the pieces between the separators.
\<close>

definition dq :: char where
  "dq = CHR 0x22"

definition isSpace :: "char \<Rightarrow> bool" where
  "isSpace c = (c \<in> {CHR 0x09, CHR 0x0A, CHR 0x0B, CHR 0x0C, CHR 0x0D, CHR '' '', CHR 0xA0})"

definition trim :: "string \<Rightarrow> string" where
  "trim s = rev (dropWhile isSpace (rev (dropWhile isSpace s)))"

fun split_on :: "char \<Rightarrow> string \<Rightarrow> string list" where
  "split_on sep [] = [[]]"
| "split_on sep (c # cs) =
     (if c = sep then [] # split_on sep cs
      else (case split_on sep cs of
              [] \<Rightarrow> [[c]]
            | p # ps \<Rightarrow> (c # p) # ps))"

section \<open>Link header parser\<close>

text \<open>
  \<^verbatim>\<open>parseLinkHeader(linkHeader)\<close> returns an object; it is modelled as an association
  list from relation name to URL in insertion order, without duplicate keys.  The
  argument is a string or \<^verbatim>\<open>null\<close>, hence a \<^typ>\<open>string option\<close>.  No operation of the
  source can throw on such an argument, so the result type has no error branch.
  \<^item> \<^verbatim>\<open>stripAngles\<close> is the replacement of the regular expression \<^verbatim>\<open>/^<|>$/g\<close> by the
    empty string: it removes one opening angle at the start and one closing angle at
    the end, each only if present.
  \<^item> \<^verbatim>\<open>matchRel\<close> is the first capture group of the regular expression that reads
    \<^verbatim>\<open>rel=\<close>, a double quote, \<^verbatim>\<open>(.*)\<close> and a double quote: the leftmost position where
    \<^verbatim>\<open>rel=\<close> and a double quote start and a closing double quote follows on the same
    line; the group is greedy and ends before the last double quote of that line.
  \<^item> \<^verbatim>\<open>setProperty\<close> is the assignment \<^verbatim>\<open>links[rel] = url\<close> on an object literal: the key
    \<^verbatim>\<open>__proto__\<close> reaches the prototype setter, which ignores a string and creates no
    property.
  \<^item> \<^verbatim>\<open>addLink\<close> is the body of the loop over the parts between commas.
\<close>

definition stripAngles :: "string \<Rightarrow> string" where
  "stripAngles s =
     (let s1 = (case s of [] \<Rightarrow> [] | c # cs \<Rightarrow> if c = CHR ''<'' then cs else s)
      in if s1 \<noteq> [] \<and> last s1 = CHR ''>'' then butlast s1 else s1)"

definition isLineTerminator :: "char \<Rightarrow> bool" where
  "isLineTerminator c = (c = CHR 0x0A \<or> c = CHR 0x0D)"

definition relCapture :: "string \<Rightarrow> string option" where
  "relCapture t =
     (let line = takeWhile (\<lambda>c. \<not> isLineTerminator c) t
      in if dq \<in> set line
         then Some (rev (tl (dropWhile (\<lambda>c. c \<noteq> dq) (rev line))))
         else None)"

definition relOpen :: string where
  "relOpen = ''rel='' @ [dq]"

fun matchRel :: "string \<Rightarrow> string option" where
  "matchRel [] = None"
| "matchRel (c # cs) =
     (if prefix relOpen (c # cs)
      then (case relCapture (drop (length relOpen) (c # cs)) of
              Some r \<Rightarrow> Some r
            | None \<Rightarrow> matchRel cs)
      else matchRel cs)"

definition setProperty :: "(string \<times> string) list \<Rightarrow> string \<Rightarrow> string \<Rightarrow> (string \<times> string) list" where
  "setProperty obj k v = (if k = ''__proto__'' then obj else AList.update k v obj)"

definition addLink :: "(string \<times> string) list \<Rightarrow> string \<Rightarrow> (string \<times> string) list" where
  "addLink links p =
     (case split_on CHR '';'' p of
        [] \<Rightarrow> links
      | s0 # rest \<Rightarrow>
          (let url = stripAngles (trim s0);
               rel = (case rest of [] \<Rightarrow> None | s1 # _ \<Rightarrow> matchRel (trim s1))
           in (case rel of
                 None \<Rightarrow> links
               | Some r \<Rightarrow> if url \<noteq> [] \<and> r \<noteq> [] then setProperty links r url else links)))"

definition parseLinkHeader :: "string option \<Rightarrow> (string \<times> string) list" where
  "parseLinkHeader linkHeader =
     (case linkHeader of
        None \<Rightarrow> []
      | Some h \<Rightarrow> if h = [] then [] else foldl addLink [] (split_on CHR '','' h))"

text \<open>
  The entry format of the specification: an entry is the URL in angle brackets, a
  semicolon, a space and \<^verbatim>\<open>rel=\<close> with the relation name in double quotes; the entries of
  a header are joined by a comma and a space.  An entry is well formed when its URL is
  not empty and has neither comma nor semicolon, and its relation name is not empty, is
  not \<^verbatim>\<open>__proto__\<close> and has neither comma, semicolon nor line break.
\<close>

definition linkEntry :: "string \<times> string \<Rightarrow> string" where
  "linkEntry e = ''<'' @ fst e @ ''>; rel='' @ [dq] @ snd e @ [dq]"

fun linkHeaderOf :: "(string \<times> string) list \<Rightarrow> string" where
  "linkHeaderOf [] = []"
| "linkHeaderOf [e] = linkEntry e"
| "linkHeaderOf (e # es) = linkEntry e @ '', '' @ linkHeaderOf es"


definition wfUrl :: "string \<Rightarrow> bool" where
  "wfUrl u = (u \<noteq> [] \<and> CHR '','' \<notin> set u \<and> CHR '';'' \<notin> set u)"

definition wfRel :: "string \<Rightarrow> bool" where
  "wfRel r = (r \<noteq> [] \<and> r \<noteq> ''__proto__'' \<and> CHR '','' \<notin> set r \<and> CHR '';'' \<notin> set r
     \<and> CHR 0x0A \<notin> set r \<and> CHR 0x0D \<notin> set r)"

definition wfEntry :: "string \<times> string \<Rightarrow> bool" where
  "wfEntry e = (wfUrl (fst e) \<and> wfRel (snd e))"

section \<open>Commits\<close>

text \<open>
  An item of the commit list as the analysis reads it.  \<^verbatim>\<open>sha\<close> is \<^verbatim>\<open>c?.sha\<close>, and
  \<^verbatim>\<open>None\<close> when the field is missing.  \<^verbatim>\<open>date\<close> is the \<^verbatim>\<open>Date\<close> object built from
  \<^verbatim>\<open>c?.commit?.author?.date\<close>, seen through the three getters the analysis calls; it is
  \<^verbatim>\<open>None\<close> when the field is missing or empty or when \<^verbatim>\<open>getTime()\<close> is not a number,
  the two cases in which the loop skips the commit.  \<^verbatim>\<open>message\<close> is
  \<^verbatim>\<open>String(c?.commit?.message || '')\<close> and \<^verbatim>\<open>url\<close> is \<^verbatim>\<open>c.url\<close>.
\<close>

record jsdate =
  getTime :: int
  getHours :: nat
  getDay :: nat

record commit =
  sha :: "string option"
  date :: "jsdate option"
  message :: string
  url :: string

section \<open>Message quality of one commit\<close>

text \<open>
  The loop body scores a message by four tests.  \<^verbatim>\<open>hasConventionalPrefix\<close> is the test
  of \<^verbatim>\<open>/^(feat|fix|docs|refactor|test|chore|style|perf):/i\<close>: one of the eight words and
  a colon at the start, letters compared without case (the flag \<^verbatim>\<open>i\<close> folds the letters
  A to Z only, since no other code unit maps to an ASCII letter; \<^verbatim>\<open>asciiLower\<close> maps each
  of them to its small letter and leaves every other character as it is).  \<^verbatim>\<open>hasIssueRef\<close> is the
  test of \<^verbatim>\<open>/#\d+/\<close>: a hash sign followed by a decimal digit, anywhere.
\<close>

definition asciiLower :: "char \<Rightarrow> char" where
  "asciiLower c =
     (case map_of (zip ''ABCDEFGHIJKLMNOPQRSTUVWXYZ'' ''abcdefghijklmnopqrstuvwxyz'') c of
        None \<Rightarrow> c
      | Some d \<Rightarrow> d)"

definition isDigit :: "char \<Rightarrow> bool" where
  "isDigit c = (c \<in> set ''0123456789'')"

definition conventionalTypes :: "string list" where
  "conventionalTypes =
     [''feat'', ''fix'', ''docs'', ''refactor'', ''test'', ''chore'', ''style'', ''perf'']"

definition hasConventionalPrefix :: "string \<Rightarrow> bool" where
  "hasConventionalPrefix m =
     list_ex (\<lambda>w. prefix (w @ '':'') (map asciiLower m)) conventionalTypes"

fun hasIssueRef :: "string \<Rightarrow> bool" where
  "hasIssueRef (c # d # cs) = ((c = CHR ''#'' \<and> isDigit d) \<or> hasIssueRef (d # cs))"
| "hasIssueRef _ = False"

definition messageScore :: "string \<Rightarrow> nat" where
  "messageScore m =
     (let messageScore = 0;
          messageScore = (if length m > 10 then messageScore + 25 else messageScore);
          messageScore = (if length m > 30 then messageScore + 25 else messageScore);
          messageScore = (if hasConventionalPrefix m then messageScore + 25 else messageScore);
          messageScore = (if hasIssueRef m then messageScore + 25 else messageScore)
      in messageScore)"


text \<open>
  The prefix test in the words of the specification, for comparison with
  \<^verbatim>\<open>hasConventionalPrefix\<close>: each of the eight words with its capital spelling; a message
  starts with a word when each of its first characters is the small or the capital
  letter at that place and a colon follows.
\<close>

definition conventionalWords :: "(string \<times> string) list" where
  "conventionalWords =
     [(''feat'', ''FEAT''), (''fix'', ''FIX''), (''docs'', ''DOCS''), (''refactor'', ''REFACTOR''),
      (''test'', ''TEST''), (''chore'', ''CHORE''), (''style'', ''STYLE''), (''perf'', ''PERF'')]"

definition startsWithWord :: "string \<times> string \<Rightarrow> string \<Rightarrow> bool" where
  "startsWithWord p m =
     (length (fst p) < length m \<and> m ! length (fst p) = CHR '':''
      \<and> (\<forall>i<length (fst p). m ! i = fst p ! i \<or> m ! i = snd p ! i))"


section \<open>Base distributions and derived metrics\<close>

text \<open>
  \<^verbatim>\<open>baseStep\<close> is the body of the loop over \<^verbatim>\<open>allCommits\<close> that fills the hourly and
  weekday histograms, the on-time and late counts, \<^verbatim>\<open>commitDates\<close> and
  \<^verbatim>\<open>totalMessageScore\<close>; a commit without a valid date leaves the state as it is
  (\<^verbatim>\<open>continue\<close>).  \<^verbatim>\<open>mathRound\<close> is \<^verbatim>\<open>Math.round\<close>, which rounds halves up.  Numbers
  are exact reals: the rounding of floating-point division is outside the model.
  \<^verbatim>\<open>sortedDates\<close> is the copy of \<^verbatim>\<open>commitDates\<close> sorted by \<^verbatim>\<open>getTime\<close>, and
  \<^verbatim>\<open>intervals\<close> is the loop from index 1 that keeps the differences in days which are
  not negative (every real is finite).
\<close>

definition WORK_START :: nat where
  "WORK_START = 1"

definition WORK_END :: nat where
  "WORK_END = 24"

record base =
  onTimeCount :: nat
  lateCount :: nat
  hourlyDistribution :: "nat list"
  weekdayDistribution :: "nat list"
  commitDates :: "jsdate list"
  totalMessageScore :: nat

definition baseInit :: base where
  "baseInit = \<lparr>onTimeCount = 0, lateCount = 0, hourlyDistribution = replicate 24 0,
     weekdayDistribution = replicate 7 0, commitDates = [], totalMessageScore = 0\<rparr>"

definition baseStep :: "base \<Rightarrow> commit \<Rightarrow> base" where
  "baseStep b c =
     (case date c of
        None \<Rightarrow> b
      | Some d \<Rightarrow>
          (let hour = getHours d;
               day = getDay d;
               onTime = (hour \<ge> WORK_START \<and> hour < WORK_END)
           in b\<lparr>commitDates := commitDates b @ [d],
                hourlyDistribution := (hourlyDistribution b)[hour := hourlyDistribution b ! hour + 1],
                weekdayDistribution := (weekdayDistribution b)[day := weekdayDistribution b ! day + 1],
                onTimeCount := (if onTime then onTimeCount b + 1 else onTimeCount b),
                lateCount := (if onTime then lateCount b else lateCount b + 1),
                totalMessageScore := totalMessageScore b + messageScore (message c)\<rparr>))"

definition baseDistributions :: "commit list \<Rightarrow> base" where
  "baseDistributions allCommits = foldl baseStep baseInit allCommits"

definition mathRound :: "real \<Rightarrow> int" where
  "mathRound x = \<lfloor>x + 1 / 2\<rfloor>"

definition onTimePercentage :: "commit list \<Rightarrow> real" where
  "onTimePercentage allCommits =
     (let totalCommits = length allCommits
      in if totalCommits \<noteq> 0
         then real (onTimeCount (baseDistributions allCommits)) / real totalCommits * 100
         else 0)"

definition messageQualityScore :: "commit list \<Rightarrow> int" where
  "messageQualityScore allCommits =
     (let totalCommits = length allCommits
      in if totalCommits \<noteq> 0
         then mathRound (real (totalMessageScore (baseDistributions allCommits)) / real totalCommits)
         else 0)"

definition clamp :: "real \<Rightarrow> real \<Rightarrow> real \<Rightarrow> real" where
  "clamp n mn mx = max mn (min mx n)"

definition msPerDay :: real where
  "msPerDay = 1000 * 60 * 60 * 24"

definition sortedDates :: "jsdate list \<Rightarrow> jsdate list" where
  "sortedDates ds = sort_key getTime ds"

definition intervals :: "jsdate list \<Rightarrow> real list" where
  "intervals sd =
     filter (\<lambda>diffDays. diffDays \<ge> 0)
       (map (\<lambda>i. real_of_int (getTime (sd ! i) - getTime (sd ! (i - 1))) / msPerDay)
          [1..<length sd])"

definition avgInterval :: "real list \<Rightarrow> real" where
  "avgInterval iv = (if length iv \<noteq> 0 then sum_list iv / real (length iv) else 0)"

definition consistencyScore :: "commit list \<Rightarrow> real" where
  "consistencyScore allCommits =
     (let sd = sortedDates (commitDates (baseDistributions allCommits))
      in clamp (100 - avgInterval (intervals sd) * 5) 0 100)"

text \<open>
  The quantities as the specification words them, for comparison with the code: the
  commits with a valid timestamp and the rounded mean of their message scores; the
  valid timestamps, the gaps in days between neighbours of the ascending timestamps,
  and the consistency \<^verbatim>\<open>clamp(100 - average gap * 5, 0, 100)\<close> over the gaps that are not
  negative, where no gap counts as an average of 0.
\<close>

definition validCommits :: "commit list \<Rightarrow> commit list" where
  "validCommits cs = filter (\<lambda>c. date c \<noteq> None) cs"

definition meanMessageScore :: "commit list \<Rightarrow> int" where
  "meanMessageScore cs =
     (if cs = [] then 0
      else mathRound (real (sum_list (map (\<lambda>c. messageScore (message c)) cs)) / real (length cs)))"

definition validTimes :: "commit list \<Rightarrow> int list" where
  "validTimes cs = map getTime (List.map_filter date cs)"

fun dayGaps :: "int list \<Rightarrow> real list" where
  "dayGaps (a # b # ts) = real_of_int (b - a) / msPerDay # dayGaps (b # ts)"
| "dayGaps _ = []"

definition meanGap :: "real list \<Rightarrow> real" where
  "meanGap gs = (if gs = [] then 0 else sum_list gs / real (length gs))"

definition gapConsistency :: "int list \<Rightarrow> real" where
  "gapConsistency ts =
     max 0 (min 100 (100 - meanGap (filter (\<lambda>g. g \<ge> 0) (dayGaps (sort ts))) * 5))"

section \<open>Commit lister\<close>

text \<open>
  The listing stage of \<^verbatim>\<open>analyzeCommits\<close> fetches the pages of the commit list one after
  the other.  A thrown JavaScript value is an \<^verbatim>\<open>exn\<close>: an \<^verbatim>\<open>AbortError\<close>, or an \<^verbatim>\<open>Error\<close>
  with its message.  What \<^verbatim>\<open>fetchJson\<close> resolves to is a \<^verbatim>\<open>response\<close> with the fields
  the loop reads: the status (\<^verbatim>\<open>resp.ok\<close> holds for 200 to 299), the \<^verbatim>\<open>link\<close> header, the
  two rate-limit headers, \<^verbatim>\<open>errorText\<close> for
  \<^verbatim>\<open>(json && (json.message || json.error)) || rawText\<close> (empty when all are falsy), and
  \<^verbatim>\<open>items\<close> for the parsed body when it is an array.  \<^verbatim>\<open>rateLimitReset\<close> holds the
  reset time as \<^verbatim>\<open>toLocaleString\<close> prints it, and is \<^verbatim>\<open>None\<close> when the header is absent
  or empty.  A fetch either resolves or throws.
\<close>

datatype exn = AbortError | Error string

record progress =
  current :: nat
  total :: nat
  pct :: real

record response =
  status :: nat
  linkHeader :: "string option"
  rateLimitRemaining :: "string option"
  rateLimitReset :: "string option"
  errorText :: string
  items :: "commit list option"

datatype fetched = Threw exn | Resp response

text \<open>
  \<^verbatim>\<open>listingError\<close> is the error thrown for a response that is not ok; \<^verbatim>\<open>decimal\<close> prints
  the status inside the message.
\<close>

definition ok :: "response \<Rightarrow> bool" where
  "ok r = (200 \<le> status r \<and> status r \<le> 299)"

fun decimal :: "nat \<Rightarrow> string" where
  "decimal n =
     (if n < 10 then [char_of (48 + n)]
      else decimal (n div 10) @ [char_of (48 + n mod 10)])"

declare decimal.simps [simp del]

definition listingError :: "response \<Rightarrow> exn" where
  "listingError r =
     (if status r = 404 then Error ''Repo not found (check owner/repo spelling and access)''
      else if status r = 401 then Error ''Unauthorized: token invalid or missing required scopes''
      else if status r = 403 then
        Error ((if errorText r \<noteq> [] then errorText r
                else ''GitHub API rate-limited or forbidden'')
               @ (case rateLimitRemaining r of
                    None \<Rightarrow> []
                  | Some n \<Rightarrow> '' (remaining: '' @ n @ '')'')
               @ (case rateLimitReset r of
                    None \<Rightarrow> []
                  | Some t \<Rightarrow> '' (reset: '' @ t @ '')''))
      else Error (''GitHub API error: '' @ decimal (status r)))"

text \<open>
  The state of the loop: the list built so far, the two sets of seen identifiers and
  seen page URLs, the next URL (empty when there is none), the page counter, and the
  progress published last.  \<^verbatim>\<open>links.next || ''\<close> is \<^verbatim>\<open>nextLink\<close>.  The test \<^verbatim>\<open>sha &&\<close>
  holds for a present, non-empty identifier (\<^verbatim>\<open>truthySha\<close>); an item without one is
  always appended.  \<^verbatim>\<open>addCommit\<close> is the body of the inner loop and \<^verbatim>\<open>mergePage\<close> the
  rest of an iteration after the checks of the response.  The \<^verbatim>\<open>sleep(0)\<close> after every
  third page changes no variable and is not modelled.
\<close>

definition nextLink :: "response \<Rightarrow> string" where
  "nextLink r =
     (case map_of (parseLinkHeader (linkHeader r)) ''next'' of
        None \<Rightarrow> []
      | Some u \<Rightarrow> u)"

record lister =
  allCommits :: "commit list"
  seenShas :: "string set"
  seenPageUrls :: "string set"
  nextUrl :: string
  pageCount :: nat
  listed :: progress

definition listerInit :: "string \<Rightarrow> lister" where
  "listerInit seed =
     \<lparr>allCommits = [], seenShas = {}, seenPageUrls = {}, nextUrl = seed, pageCount = 0,
      listed = \<lparr>current = 0, total = 0, pct = 0\<rparr>\<rparr>"

definition truthySha :: "commit \<Rightarrow> string option" where
  "truthySha c = (case sha c of None \<Rightarrow> None | Some s \<Rightarrow> if s = [] then None else Some s)"

definition addCommit :: "lister \<Rightarrow> commit \<Rightarrow> lister" where
  "addCommit st c =
     (case truthySha c of
        None \<Rightarrow> st\<lparr>allCommits := allCommits st @ [c]\<rparr>
      | Some s \<Rightarrow>
          if s \<in> seenShas st then st
          else st\<lparr>seenShas := insert s (seenShas st), allCommits := allCommits st @ [c]\<rparr>)"

definition mergePage :: "lister \<Rightarrow> response \<Rightarrow> commit list \<Rightarrow> lister" where
  "mergePage st r json =
     (let st = foldl addCommit st json;
          st = st\<lparr>listed := \<lparr>current = length (allCommits st), total = 0, pct = 0\<rparr>\<rparr>
      in st\<lparr>nextUrl := nextLink r\<rparr>)"

text \<open>
  One iteration of the \<^verbatim>\<open>while\<close> loop either leaves the loop (\<^verbatim>\<open>Done\<close>: by the test of
  the loop, by the visited-URL guard, by an exception, or by the \<^verbatim>\<open>break\<close> on a body that
  is not a non-empty array) or goes on with a new state (\<^verbatim>\<open>More\<close>).  The server is a
  function from the number of requests made before and the requested URL to the
  outcome of the fetch, so it may answer the same URL differently each time.  The loop
  has no bound in the source; \<^verbatim>\<open>listLoop\<close> runs it with fuel and returns \<^verbatim>\<open>None\<close> when the
  fuel does not suffice.  Its result carries the URLs fetched, in order.
\<close>

datatype step = Done "string list" "exn + lister" | More string lister

definition listStep :: "(nat \<Rightarrow> string \<Rightarrow> fetched) \<Rightarrow> lister \<Rightarrow> step" where
  "listStep srv st =
     (if nextUrl st = [] then Done [] (Inr st)
      else if nextUrl st \<in> seenPageUrls st then Done [] (Inr st)
      else
        (let u = nextUrl st;
             st1 = st\<lparr>seenPageUrls := insert u (seenPageUrls st), pageCount := pageCount st + 1\<rparr>
         in (case srv (pageCount st) u of
               Threw e \<Rightarrow> Done [u] (Inl e)
             | Resp r \<Rightarrow>
                 if \<not> ok r then Done [u] (Inl (listingError r))
                 else (case items r of
                         None \<Rightarrow> Done [u] (Inr st1)
                       | Some json \<Rightarrow>
                           if json = [] then Done [u] (Inr st1)
                           else More u (mergePage st1 r json)))))"

fun listLoop :: "nat \<Rightarrow> (nat \<Rightarrow> string \<Rightarrow> fetched) \<Rightarrow> lister \<Rightarrow> (string list \<times> (exn + lister)) option" where
  "listLoop 0 srv st = None"
| "listLoop (Suc fuel) srv st =
     (case listStep srv st of
        Done tr res \<Rightarrow> Some (tr, res)
      | More u st' \<Rightarrow>
          (case listLoop fuel srv st' of
             None \<Rightarrow> None
           | Some (tr, res) \<Rightarrow> Some (u # tr, res)))"

text \<open>
  For stating properties: \<^verbatim>\<open>pageUrl srv seed k\<close> is the URL of page \<^verbatim>\<open>k\<close> (counted from 0)
  as the link headers chain them from the seed, and \<^verbatim>\<open>pageItems srv seed k\<close> the items of
  that page.  \<^verbatim>\<open>firstOccurrences\<close> keeps, of the items that share an identifier, the first
  one; \<^verbatim>\<open>ids\<close> lists the identifiers of a commit list.
\<close>

definition nextLinkOf :: "fetched \<Rightarrow> string" where
  "nextLinkOf f = (case f of Threw e \<Rightarrow> [] | Resp r \<Rightarrow> nextLink r)"

fun pageUrl :: "(nat \<Rightarrow> string \<Rightarrow> fetched) \<Rightarrow> string \<Rightarrow> nat \<Rightarrow> string" where
  "pageUrl srv seed 0 = seed"
| "pageUrl srv seed (Suc k) = nextLinkOf (srv k (pageUrl srv seed k))"

definition pageItemsAt :: "(nat \<Rightarrow> string \<Rightarrow> fetched) \<Rightarrow> nat \<Rightarrow> string \<Rightarrow> commit list" where
  "pageItemsAt srv k u =
     (case srv k u of
        Threw e \<Rightarrow> []
      | Resp r \<Rightarrow> (case items r of None \<Rightarrow> [] | Some json \<Rightarrow> json))"

definition pageItems :: "(nat \<Rightarrow> string \<Rightarrow> fetched) \<Rightarrow> string \<Rightarrow> nat \<Rightarrow> commit list" where
  "pageItems srv seed k = pageItemsAt srv k (pageUrl srv seed k)"

definition sameId :: "commit \<Rightarrow> commit \<Rightarrow> bool" where
  "sameId c d = (truthySha c \<noteq> None \<and> truthySha c = truthySha d)"

fun firstOccurrences :: "commit list \<Rightarrow> commit list" where
  "firstOccurrences [] = []"
| "firstOccurrences (c # cs) = c # firstOccurrences (filter (\<lambda>d. \<not> sameId c d) cs)"

definition ids :: "commit list \<Rightarrow> string list" where
  "ids cs = List.map_filter truthySha cs"

definition unseen :: "string set \<Rightarrow> commit \<Rightarrow> bool" where
  "unseen S c = (case truthySha c of None \<Rightarrow> True | Some s \<Rightarrow> s \<notin> S)"

text \<open>
  A paginated input, seen from the caller: \<^verbatim>\<open>servesPage srv seed k json\<close> holds when the
  request number \<^verbatim>\<open>k\<close>, sent to the URL that the link headers chain from the seed, is
  answered by an ok response whose body is the non-empty array \<^verbatim>\<open>json\<close>.
  \<^verbatim>\<open>endsListing srv seed n\<close> holds when the listing ends after \<^verbatim>\<open>n\<close> such pages: the last
  of them has no next link, or its next link is the URL of one of them, or the page it
  links to is ok and its body is not a non-empty array.
\<close>

definition servesPage :: "(nat \<Rightarrow> string \<Rightarrow> fetched) \<Rightarrow> string \<Rightarrow> nat \<Rightarrow> commit list \<Rightarrow> bool" where
  "servesPage srv seed k json =
     (json \<noteq> [] \<and> pageUrl srv seed k \<noteq> []
      \<and> (case srv k (pageUrl srv seed k) of
            Threw e \<Rightarrow> False
          | Resp r \<Rightarrow> ok r \<and> items r = Some json))"

definition endsListing :: "(nat \<Rightarrow> string \<Rightarrow> fetched) \<Rightarrow> string \<Rightarrow> nat \<Rightarrow> bool" where
  "endsListing srv seed n =
     (pageUrl srv seed n = []
      \<or> pageUrl srv seed n \<in> set (map (pageUrl srv seed) [0..<n])
      \<or> (case srv n (pageUrl srv seed n) of
            Threw e \<Rightarrow> False
          | Resp r \<Rightarrow> ok r \<and> (items r = None \<or> items r = Some [])))"


text \<open>
  Fixtures of the paginated server.  \<^verbatim>\<open>cycleFixture\<close>: the page at \<^verbatim>\<open>p1\<close> links to \<^verbatim>\<open>p2\<close>
  and every other page links back to \<^verbatim>\<open>p1\<close>.  \<^verbatim>\<open>duplicateFixture\<close>: the page at \<^verbatim>\<open>p1\<close>
  holds the commits a and b and links to \<^verbatim>\<open>p2\<close>, which holds b and c and links to
  \<^verbatim>\<open>p3\<close>, which holds a and d and has no link header.
\<close>

definition okPage :: "string option \<Rightarrow> commit list \<Rightarrow> fetched" where
  "okPage h cs = Resp \<lparr>status = 200, linkHeader = h, rateLimitRemaining = None,
     rateLimitReset = None, errorText = [], items = Some cs\<rparr>"

definition commitOf :: "string \<Rightarrow> commit" where
  "commitOf s = \<lparr>sha = Some s, date = None, message = [], url = []\<rparr>"

definition cycleFixture :: "nat \<Rightarrow> string \<Rightarrow> fetched" where
  "cycleFixture k u =
     (if u = ''p1'' then okPage (Some (linkHeaderOf [(''p2'', ''next'')])) [commitOf ''a'']
      else okPage (Some (linkHeaderOf [(''p1'', ''next'')])) [commitOf ''b''])"

definition duplicateFixture :: "nat \<Rightarrow> string \<Rightarrow> fetched" where
  "duplicateFixture k u =
     (if u = ''p1''
      then okPage (Some (linkHeaderOf [(''p2'', ''next'')])) [commitOf ''a'', commitOf ''b'']
      else if u = ''p2''
      then okPage (Some (linkHeaderOf [(''p3'', ''next'')])) [commitOf ''b'', commitOf ''c'']
      else okPage None [commitOf ''a'', commitOf ''d''])"

section \<open>Detail-fetch workers\<close>














section \<open>Orchestration of one analysis\<close>

text \<open>
  \<^verbatim>\<open>analyzeCommits(devId)\<close> for one developer entry.  Of the state maps keyed by the
  developer it writes, the model keeps \<^verbatim>\<open>phases\<close>, \<^verbatim>\<open>errors\<close>, \<^verbatim>\<open>results\<close> and
  \<^verbatim>\<open>loadingStates\<close> as the four fields of \<^verbatim>\<open>subject\<close>.
  \<^item> \<^verbatim>\<open>probeMetadata\<close> is step 0: it returns the default branch and the warning, or the
    \<^verbatim>\<open>AbortError\<close> it rethrows.  The \<^verbatim>\<open>Error\<close> thrown for status 404 is thrown inside
    the inner \<^verbatim>\<open>try\<close> and caught by its \<^verbatim>\<open>catch\<close>, which turns it into the warning of a
    failed read.  \<^verbatim>\<open>metaJson\<close> tells that the body parsed to a truthy value,
    \<^verbatim>\<open>default_branch\<close> is \<^verbatim>\<open>json.default_branch || ''\<close> and \<^verbatim>\<open>metaText\<close> is
    \<^verbatim>\<open>(json && (json.message || json.error)) || rawText || ''\<close>.
  \<^item> \<^verbatim>\<open>listingUrl\<close> is the first page URL; \<^verbatim>\<open>encodeURIComponent\<close> is a parameter.
  \<^item> \<^verbatim>\<open>tryBlock\<close> is the body of the outer \<^verbatim>\<open>try\<close>; it returns the state it reached and
    the exception thrown, if any.  Steps 2 to 4, which run only on a non-empty list and
    end in the result record or in an exception, are the parameter \<^verbatim>\<open>derive\<close>.
  \<^item> \<^verbatim>\<open>catchBlock\<close> is the \<^verbatim>\<open>catch\<close> clause; the \<^verbatim>\<open>finally\<close> clause clears the loading
    flag.  The timer that sets the phase back to idle two seconds after \<^verbatim>\<open>done\<close> is a
    later event and not part of the call.
  The call returns \<^verbatim>\<open>None\<close> only when the fuel of the listing loop does not suffice.
\<close>

record developer =
  username :: string
  repo :: string
  token :: string

record metaResponse =
  metaStatus :: nat
  metaJson :: bool
  default_branch :: string
  metaText :: string

datatype metaFetched = MetaThrew exn | MetaResp metaResponse

definition probeMetadata :: "metaFetched \<Rightarrow> exn + string \<times> string" where
  "probeMetadata f =
     (case f of
        MetaThrew e \<Rightarrow>
          (case e of
             AbortError \<Rightarrow> Inl AbortError
           | Error m \<Rightarrow> Inr ([], ''Could not read repo metadata. Falling back to commit listing.''))
      | MetaResp r \<Rightarrow>
          if 200 \<le> metaStatus r \<and> metaStatus r \<le> 299 \<and> metaJson r
          then Inr (default_branch r, [])
          else if metaStatus r = 403
          then Inr ([], ''Repo metadata blocked (403). Falling back to commit listing.''
                 @ (if metaText r \<noteq> [] then '' ('' @ metaText r @ '')'' else []))
          else if metaStatus r = 404
          then Inr ([], ''Could not read repo metadata. Falling back to commit listing.'')
          else if metaStatus r = 401
          then Inr ([], ''Token unauthorized (401). Falling back to unauthenticated commit listing.'')
          else Inr ([], ''Repo metadata unavailable ('' @ decimal (metaStatus r)
                 @ ''). Falling back to commit listing.''))"

definition listingUrl :: "(string \<Rightarrow> string) \<Rightarrow> developer \<Rightarrow> string \<Rightarrow> string" where
  "listingUrl encodeURIComponent dev defaultBranch =
     ''https://api.github.com/repos/'' @ encodeURIComponent (trim (username dev)) @ ''/''
     @ encodeURIComponent (trim (repo dev)) @ ''/commits?per_page=100''
     @ (if defaultBranch \<noteq> [] then ''&sha='' @ encodeURIComponent defaultBranch else [])"

record 'r subject =
  phase :: string
  error :: string
  result :: "'r option"
  loading :: bool

definition tryBlock ::
  "(commit list \<Rightarrow> exn + 'r) \<Rightarrow> (string \<Rightarrow> string) \<Rightarrow> developer \<Rightarrow> metaFetched \<Rightarrow>
   (nat \<Rightarrow> string \<Rightarrow> fetched) \<Rightarrow> nat \<Rightarrow> 'r subject \<Rightarrow> ('r subject \<times> exn option) option" where
  "tryBlock derive encodeURIComponent dev meta srv fuel s =
     (case probeMetadata meta of
        Inl e \<Rightarrow> Some (s, Some e)
      | Inr (defaultBranch, metaWarning) \<Rightarrow>
          (let s = (if metaWarning \<noteq> [] then s\<lparr>error := metaWarning\<rparr> else s)
           in (case listLoop fuel srv (listerInit (listingUrl encodeURIComponent dev defaultBranch)) of
                 None \<Rightarrow> None
               | Some (tr, Inl e) \<Rightarrow> Some (s, Some e)
               | Some (tr, Inr st) \<Rightarrow>
                   if length (allCommits st) = 0 then Some (s, Some (Error ''No commits found''))
                   else (let s = s\<lparr>phase := ''details''\<rparr>
                         in (case derive (allCommits st) of
                               Inl e \<Rightarrow> Some (s, Some e)
                             | Inr resultData \<Rightarrow>
                                 Some (s\<lparr>result := Some resultData, phase := ''done''\<rparr>, None))))))"

definition catchBlock :: "exn \<Rightarrow> 'r subject \<Rightarrow> 'r subject" where
  "catchBlock err s =
     (let s = (case err of
                 AbortError \<Rightarrow> s\<lparr>error := ''Stopped.''\<rparr>
               | Error m \<Rightarrow> s\<lparr>error := (if m \<noteq> [] then m else ''Something went wrong'')\<rparr>)
      in s\<lparr>phase := ''idle''\<rparr>)"

definition analyzeCommits ::
  "(commit list \<Rightarrow> exn + 'r) \<Rightarrow> (string \<Rightarrow> string) \<Rightarrow> developer option \<Rightarrow> metaFetched \<Rightarrow>
   (nat \<Rightarrow> string \<Rightarrow> fetched) \<Rightarrow> nat \<Rightarrow> 'r subject \<Rightarrow> 'r subject option" where
  "analyzeCommits derive encodeURIComponent dev meta srv fuel s =
     (case dev of
        None \<Rightarrow> Some s
      | Some d \<Rightarrow>
          if trim (username d) = [] \<or> trim (repo d) = []
          then Some (s\<lparr>error := ''Please enter both owner and repository name''\<rparr>)
          else
            (let s = s\<lparr>loading := True, phase := ''listing'', error := [], result := None\<rparr>
             in (case tryBlock derive encodeURIComponent d meta srv fuel s of
                   None \<Rightarrow> None
                 | Some (s, thrown) \<Rightarrow>
                     (let s = (case thrown of None \<Rightarrow> s | Some err \<Rightarrow> catchBlock err s)
                      in Some (s\<lparr>loading := False\<rparr>)))))"

definition emptyFixture :: "nat \<Rightarrow> string \<Rightarrow> fetched" where
  "emptyFixture k u = okPage None []"

section \<open>Properties of the experience scorer\<close>

lemma volumePoints_range: "10 \<le> volumePoints c \<and> volumePoints c \<le> 40"
  by (simp add: volumePoints_def)

lemma patternPoints_range: "2 \<le> patternPoints p \<and> patternPoints p \<le> 15"
  by (simp add: patternPoints_def)

lemma qualityPoints_range: "10 \<le> qualityPoints q \<and> qualityPoints q \<le> 25"
  by (simp add: qualityPoints_def)

lemma consistencyPoints_range: "5 \<le> consistencyPoints k c \<and> consistencyPoints k c \<le> 20"
  by (simp add: consistencyPoints_def)

lemma volumePoints_v1_range: "10 \<le> volumePoints_v1 c \<and> volumePoints_v1 c \<le> 35"
  by (simp add: volumePoints_v1_def)

lemma qualityPoints_v1_range: "15 \<le> qualityPoints_v1 q \<and> qualityPoints_v1 q \<le> 30"
  by (simp add: qualityPoints_v1_def)

lemma score_levelOf: "score (levelOf s) = s"
  by (simp add: levelOf_def)

lemma level_levelOf:
  "level (levelOf s) =
     (if s \<ge> 80 then ''Senior'' else if s \<ge> 60 then ''Mid-Level''
      else if s \<ge> 40 then ''Junior'' else ''Beginner'')"
  by (simp add: levelOf_def)

lemma score_calculateExperienceLevel:
  "score (calculateExperienceLevel c p q k) =
     volumePoints c + patternPoints p + qualityPoints q + consistencyPoints k c"
  by (simp add: calculateExperienceLevel_def score_levelOf)

lemma score_calculateExperienceLevel_v1:
  "score (calculateExperienceLevel_v1 c p q k) =
     volumePoints_v1 c + patternPoints p + qualityPoints_v1 q + consistencyPoints k c"
  by (simp add: calculateExperienceLevel_v1_def score_levelOf)

text \<open>
  C4.  The scorer is a function of its four arguments alone.  Its score is the sum of
  four contributions, which never exceed 40 (volume), 15 (work pattern), 25 (message
  quality) and 20 (consistency).  The level is Senior from 80, Mid-Level from 60, Junior
  from 40 and Beginner below.  250 commits, 65 percent on time, quality 55 and
  consistency 75 give 40 + 15 + 25 + 20 = 100 and the level Senior.
\<close>

theorem experience_scorer_tiers:
  "score (calculateExperienceLevel c p q k) =
     volumePoints c + patternPoints p + qualityPoints q + consistencyPoints k c
   \<and> volumePoints c \<le> 40 \<and> patternPoints p \<le> 15
   \<and> qualityPoints q \<le> 25 \<and> consistencyPoints k c \<le> 20
   \<and> level (calculateExperienceLevel c p q k) =
       (let s = score (calculateExperienceLevel c p q k)
        in if s \<ge> 80 then ''Senior'' else if s \<ge> 60 then ''Mid-Level''
           else if s \<ge> 40 then ''Junior'' else ''Beginner'')
   \<and> volumePoints 250 = 40 \<and> patternPoints 65 = 15
   \<and> qualityPoints 55 = 25 \<and> consistencyPoints 75 250 = 20
   \<and> score (calculateExperienceLevel 250 65 55 75) = 100
   \<and> level (calculateExperienceLevel 250 65 55 75) = ''Senior''"
proof -
  have s: "score (calculateExperienceLevel c p q k) =
      volumePoints c + patternPoints p + qualityPoints q + consistencyPoints k c"
    by (rule score_calculateExperienceLevel)
  have l: "level (calculateExperienceLevel c p q k) =
       (let s = score (calculateExperienceLevel c p q k)
        in if s \<ge> 80 then ''Senior'' else if s \<ge> 60 then ''Mid-Level''
           else if s \<ge> 40 then ''Junior'' else ''Beginner'')"
    by (simp add: calculateExperienceLevel_def level_levelOf score_levelOf Let_def)
  have e: "volumePoints 250 = 40" "patternPoints 65 = 15"
      "qualityPoints 55 = 25" "consistencyPoints 75 250 = 20"
    by (simp_all add: volumePoints_def patternPoints_def qualityPoints_def
        consistencyPoints_def)
  have e1: "score (calculateExperienceLevel 250 65 55 75) = 100"
    by (simp add: score_calculateExperienceLevel e)
  have e2: "level (calculateExperienceLevel 250 65 55 75) = ''Senior''"
    by (simp add: calculateExperienceLevel_def level_levelOf e)
  from s l e e1 e2 volumePoints_range [of c] patternPoints_range [of p]
    qualityPoints_range [of q] consistencyPoints_range [of k c]
  show ?thesis by blast
qed

text \<open>
  C10.  For all arguments the score lies between 27 and 100: the lowest tier of each
  block still adds 10 (volume), 2 (work pattern), 10 (message quality) and 5
  (consistency).  Beginner is reported exactly for the scores from 27 up to 39.  The
  older copy of the scorer in the second source file stays inside the same interval.
\<close>

theorem experience_score_range:
  "27 \<le> score (calculateExperienceLevel c p q k)
   \<and> score (calculateExperienceLevel c p q k) \<le> 100
   \<and> 10 \<le> volumePoints c \<and> 2 \<le> patternPoints p
   \<and> 10 \<le> qualityPoints q \<and> 5 \<le> consistencyPoints k c
   \<and> score (calculateExperienceLevel 0 0 0 0) = 27
   \<and> (level (calculateExperienceLevel c p q k) = ''Beginner'') =
       (score (calculateExperienceLevel c p q k) \<in> {27..<40})
   \<and> 27 \<le> score (calculateExperienceLevel_v1 c p q k)
   \<and> score (calculateExperienceLevel_v1 c p q k) \<le> 100"
proof -
  note r = volumePoints_range [of c] patternPoints_range [of p]
    qualityPoints_range [of q] consistencyPoints_range [of k c]
  have lo: "27 \<le> score (calculateExperienceLevel c p q k)"
    and hi: "score (calculateExperienceLevel c p q k) \<le> 100"
    using r by (simp_all add: score_calculateExperienceLevel)
  have z: "score (calculateExperienceLevel 0 0 0 0) = 27"
    by (simp add: score_calculateExperienceLevel volumePoints_def patternPoints_def
        qualityPoints_def consistencyPoints_def)
  have b: "(level (calculateExperienceLevel c p q k) = ''Beginner'') =
       (score (calculateExperienceLevel c p q k) \<in> {27..<40})"
    using lo by (simp add: calculateExperienceLevel_def level_levelOf score_levelOf)
  have v1: "27 \<le> score (calculateExperienceLevel_v1 c p q k)"
      "score (calculateExperienceLevel_v1 c p q k) \<le> 100"
    using volumePoints_v1_range [of c] patternPoints_range [of p]
      qualityPoints_v1_range [of q] consistencyPoints_range [of k c]
    by (simp_all add: score_calculateExperienceLevel_v1)
  from lo hi z b v1 r show ?thesis by blast
qed

section \<open>Properties of the link header parser\<close>

lemma split_on_notin: "sep \<notin> set a \<Longrightarrow> split_on sep a = [a]"
  by (induction a) auto

lemma split_on_append: "sep \<notin> set a \<Longrightarrow> split_on sep (a @ sep # b) = a # split_on sep b"
  by (induction a) auto

lemma dropWhile_hd: "xs \<noteq> [] \<Longrightarrow> \<not> P (hd xs) \<Longrightarrow> dropWhile P xs = xs"
  by (cases xs) auto

lemma trim_id: "s \<noteq> [] \<Longrightarrow> \<not> isSpace (hd s) \<Longrightarrow> \<not> isSpace (last s) \<Longrightarrow> trim s = s"
  by (simp add: trim_def dropWhile_hd hd_rev)

lemma trim_space: "isSpace c \<Longrightarrow> trim (c # s) = trim s"
  by (simp add: trim_def)

lemma stripAngles_wrapped: "stripAngles (CHR ''<'' # u @ ''>'') = u"
  by (simp add: stripAngles_def)

lemma relCapture_closed:
  "\<forall>c\<in>set r. \<not> isLineTerminator c \<Longrightarrow> relCapture (r @ [dq]) = Some r"
  by (simp add: relCapture_def isLineTerminator_def dq_def)

lemma matchRel_rel: "\<forall>c\<in>set r. \<not> isLineTerminator c \<Longrightarrow> matchRel (''rel='' @ [dq] @ r @ [dq]) = Some r"
  by (simp add: relCapture_closed relOpen_def)

lemma split_entry:
  assumes "wfEntry e"
  shows "split_on CHR '';'' (linkEntry e) = [''<'' @ fst e @ ''>'', '' rel='' @ [dq] @ snd e @ [dq]]"
proof -
  have a: "CHR '';'' \<notin> set (''<'' @ fst e @ ''>'')"
    using assms by (simp add: wfEntry_def wfUrl_def)
  have b: "CHR '';'' \<notin> set ('' rel='' @ [dq] @ snd e @ [dq])"
    using assms by (simp add: wfEntry_def wfRel_def dq_def)
  have "linkEntry e = (''<'' @ fst e @ ''>'') @ CHR '';'' # ('' rel='' @ [dq] @ snd e @ [dq])"
    by (simp add: linkEntry_def)
  then show ?thesis
    using split_on_append [OF a] split_on_notin [OF b] by simp
qed

lemma addLink_entry:
  assumes "wfEntry e"
  shows "addLink links (linkEntry e) = AList.update (snd e) (fst e) links"
proof -
  have lt: "\<forall>c\<in>set (snd e). \<not> isLineTerminator c"
    using assms by (auto simp: wfEntry_def wfRel_def isLineTerminator_def)
  have t0: "trim (''<'' @ fst e @ ''>'') = ''<'' @ fst e @ ''>''"
    by (rule trim_id) (simp_all add: isSpace_def)
  have t1: "trim ('' rel='' @ [dq] @ snd e @ [dq]) = ''rel='' @ [dq] @ snd e @ [dq]"
  proof -
    have "trim ('' rel='' @ [dq] @ snd e @ [dq]) = trim (''rel='' @ [dq] @ snd e @ [dq])"
      using trim_space [of "CHR '' ''" "''rel='' @ [dq] @ snd e @ [dq]"]
      by (simp add: isSpace_def)
    also have "\<dots> = ''rel='' @ [dq] @ snd e @ [dq]"
      by (rule trim_id) (simp_all add: isSpace_def dq_def)
    finally show ?thesis .
  qed
  have u: "stripAngles (''<'' @ fst e @ ''>'') = fst e"
    using stripAngles_wrapped [of "fst e"] by simp
  have ne: "fst e \<noteq> []" "snd e \<noteq> []" "snd e \<noteq> ''__proto__''"
    using assms by (simp_all add: wfEntry_def wfUrl_def wfRel_def)
  show ?thesis
    unfolding addLink_def split_entry [OF assms]
    by (simp only: list.case Let_def t0 t1 u matchRel_rel [OF lt] option.case)
       (simp add: ne setProperty_def)
qed

lemma addLink_space_entry:
  assumes "wfEntry e"
  shows "addLink links (CHR '' '' # linkEntry e) = AList.update (snd e) (fst e) links"
proof -
  have s: "split_on CHR '';'' (CHR '' '' # linkEntry e) =
      [CHR '' '' # ''<'' @ fst e @ ''>'', '' rel='' @ [dq] @ snd e @ [dq]]"
    using split_entry [OF assms] by simp
  have t: "trim (CHR '' '' # ''<'' @ fst e @ ''>'') = trim (''<'' @ fst e @ ''>'')"
    by (rule trim_space) (simp add: isSpace_def)
  have "addLink links (CHR '' '' # linkEntry e) = addLink links (linkEntry e)"
    unfolding addLink_def s split_entry [OF assms] by (simp only: list.case t)
  then show ?thesis by (simp add: addLink_entry [OF assms])
qed

lemma comma_notin_entry: "wfEntry e \<Longrightarrow> CHR '','' \<notin> set (linkEntry e)"
  by (simp add: wfEntry_def wfUrl_def wfRel_def linkEntry_def dq_def)

lemma split_header:
  "\<forall>e\<in>set (e0 # es). wfEntry e \<Longrightarrow>
   split_on CHR '','' (linkHeaderOf (e0 # es)) = linkEntry e0 # map (\<lambda>e. CHR '' '' # linkEntry e) es"
proof (induction es arbitrary: e0)
  case Nil
  then show ?case by (simp add: split_on_notin comma_notin_entry)
next
  case (Cons e1 es)
  have c: "CHR '','' \<notin> set (linkEntry e0)"
    using Cons.prems by (simp add: comma_notin_entry)
  have "linkHeaderOf (e0 # e1 # es) = linkEntry e0 @ CHR '','' # (CHR '' '' # linkHeaderOf (e1 # es))"
    by simp
  then have "split_on CHR '','' (linkHeaderOf (e0 # e1 # es)) =
      linkEntry e0 # split_on CHR '','' (CHR '' '' # linkHeaderOf (e1 # es))"
    using split_on_append [OF c] by simp
  moreover have "split_on CHR '','' (linkHeaderOf (e1 # es)) =
      linkEntry e1 # map (\<lambda>e. CHR '' '' # linkEntry e) es"
    using Cons.IH [of e1] Cons.prems by simp
  ultimately show ?case by simp
qed

lemma foldl_addLink_entries:
  "\<forall>e\<in>set es. wfEntry e \<Longrightarrow>
   foldl addLink links (map (\<lambda>e. CHR '' '' # linkEntry e) es) =
   foldl (\<lambda>l e. AList.update (snd e) (fst e) l) links es"
  by (induction es arbitrary: links) (simp_all add: addLink_space_entry)

lemma linkHeaderOf_nonempty: "linkHeaderOf (e # es) \<noteq> []"
  by (cases es) (simp_all add: linkEntry_def)

lemma parse_rendered:
  assumes "\<forall>e\<in>set es. wfEntry e"
  shows "parseLinkHeader (Some (linkHeaderOf es)) =
     foldl (\<lambda>l e. AList.update (snd e) (fst e) l) [] es"
proof (cases es)
  case Nil
  then show ?thesis by (simp add: parseLinkHeader_def)
next
  case (Cons e0 es')
  with assms have w: "\<forall>e\<in>set (e0 # es'). wfEntry e" by simp
  then have w0: "wfEntry e0" and w': "\<forall>e\<in>set es'. wfEntry e" by simp_all
  show ?thesis
    unfolding Cons parseLinkHeader_def
    by (simp only: option.case linkHeaderOf_nonempty if_False split_header [OF w]
        foldl_Cons addLink_entry [OF w0] foldl_addLink_entries [OF w'])
qed

lemma update_fresh_fold:
  "distinct (map snd es) \<Longrightarrow> set (map snd es) \<inter> fst ` set l = {} \<Longrightarrow>
   foldl (\<lambda>l e. AList.update (snd e) (fst e) l) l es = l @ map (\<lambda>e. (snd e, fst e)) es"
proof (induction es arbitrary: l)
  case Nil
  then show ?case by simp
next
  case (Cons e es)
  have f: "snd e \<notin> fst ` set l" using Cons.prems by auto
  then have u: "AList.update (snd e) (fst e) l = l @ [(snd e, fst e)]"
    by (induction l) auto
  have "set (map snd es) \<inter> fst ` set (l @ [(snd e, fst e)]) = {}"
    using Cons.prems by auto
  with Cons.IH [of "l @ [(snd e, fst e)]"] Cons.prems u show ?case by simp
qed

lemma matchRel_sublist: "matchRel s = Some r \<Longrightarrow> sublist relOpen s"
proof (induction s)
  case Nil
  then show ?case by simp
next
  case (Cons c cs)
  show ?case
  proof (cases "prefix relOpen (c # cs)")
    case True
    then show ?thesis by (rule prefix_imp_sublist)
  next
    case False
    with Cons.prems have "matchRel cs = Some r" by (simp only: matchRel.simps if_False)
    then have "sublist relOpen cs" by (rule Cons.IH)
    then show ?thesis by (simp add: sublist_Cons_right)
  qed
qed

lemma sublist_trim: "sublist (trim s) s"
proof -
  have "prefix (trim s) (dropWhile isSpace s)"
    unfolding trim_def by (metis suffix_dropWhile suffix_to_prefix rev_rev_ident)
  then have "sublist (trim s) (dropWhile isSpace s)" by (rule prefix_imp_sublist)
  moreover have "sublist (dropWhile isSpace s) s"
    by (rule suffix_imp_sublist) (rule suffix_dropWhile)
  ultimately show ?thesis by (rule sublist_order.order_trans)
qed

lemma split_on_parts:
  "split_on sep s = p # ps \<Longrightarrow> prefix p s \<and> (\<forall>x\<in>set ps. sublist x s)"
proof (induction s arbitrary: p ps)
  case Nil
  then show ?case by simp
next
  case (Cons c cs)
  show ?case
  proof (cases "c = sep")
    case True
    with Cons.prems have p: "p = []" and ps: "ps = split_on sep cs" by simp_all
    have "\<forall>x\<in>set (split_on sep cs). sublist x cs"
    proof (cases "split_on sep cs")
      case Nil
      then show ?thesis by simp
    next
      case (Cons q qs)
      with Cons.IH [of q qs] show ?thesis by (auto intro: prefix_imp_sublist)
    qed
    with p ps show ?thesis by (auto simp: sublist_Cons_right)
  next
    case False
    show ?thesis
    proof (cases "split_on sep cs")
      case Nil
      with False Cons.prems show ?thesis by auto
    next
      case (Cons q qs)
      with False Cons.prems have "p = c # q" "ps = qs" by simp_all
      with Cons.IH [OF Cons] show ?thesis by (auto simp: sublist_Cons_right)
    qed
  qed
qed

lemma addLink_no_rel:
  assumes "\<not> sublist relOpen p"
  shows "addLink links p = links"
proof (cases "split_on CHR '';'' p")
  case Nil
  then show ?thesis by (simp add: addLink_def)
next
  case (Cons s0 rest)
  show ?thesis
  proof (cases rest)
    case Nil
    with Cons show ?thesis by (simp add: addLink_def)
  next
    case (Cons s1 rest')
    with \<open>split_on CHR '';'' p = s0 # rest\<close> have "sublist s1 p"
      using split_on_parts [of "CHR '';''" p s0 rest] by simp
    then have "sublist (trim s1) p"
      using sublist_trim [of s1] sublist_order.order_trans by blast
    then have "\<not> sublist relOpen (trim s1)"
      using assms sublist_order.order_trans by blast
    then have "matchRel (trim s1) = None"
      using matchRel_sublist [of "trim s1"] by (cases "matchRel (trim s1)") auto
    with Cons \<open>split_on CHR '';'' p = s0 # rest\<close> show ?thesis
      by (simp add: addLink_def)
  qed
qed

text \<open>
  C3 (as amended).  A header of N well-formed entries with pairwise distinct relation
  names is parsed into exactly these N entries, in order.  A part between commas in
  which \<^verbatim>\<open>rel=\<close> followed by a double quote does not occur adds nothing.  An absent
  header and the empty header give the empty mapping.  The parser is total: no input
  makes it raise.
\<close>

theorem parseLinkHeader_wellformed_entries:
  assumes "\<forall>e\<in>set es. wfEntry e" and "distinct (map snd es)" and "\<not> sublist relOpen p"
  shows "parseLinkHeader (Some (linkHeaderOf es)) = map (\<lambda>e. (snd e, fst e)) es
     \<and> length (parseLinkHeader (Some (linkHeaderOf es))) = length es
     \<and> addLink links p = links
     \<and> parseLinkHeader None = []
     \<and> parseLinkHeader (Some []) = []"
proof -
  have "parseLinkHeader (Some (linkHeaderOf es)) =
      foldl (\<lambda>l e. AList.update (snd e) (fst e) l) [] es"
    using assms(1) by (rule parse_rendered)
  also have "\<dots> = [] @ map (\<lambda>e. (snd e, fst e)) es"
    using assms(2) by (intro update_fresh_fold) simp_all
  finally have a: "parseLinkHeader (Some (linkHeaderOf es)) = map (\<lambda>e. (snd e, fst e)) es"
    by simp
  have b: "addLink links p = links"
    using assms(3) by (rule addLink_no_rel)
  have c: "parseLinkHeader None = []" "parseLinkHeader (Some []) = []"
    by (simp_all add: parseLinkHeader_def)
  from a b c show ?thesis by simp
qed

theorem parseLinkHeader_wellformed_entries_witness:
  "wfEntry (''https://x.test?page=2'', ''next'') \<and> wfEntry (''https://x.test?page=9'', ''last'')
   \<and> distinct [''next'', ''last'']
   \<and> \<not> sublist relOpen ''<https://x.test?page=4>; type=x''
   \<and> parseLinkHeader (Some (linkHeaderOf
         [(''https://x.test?page=2'', ''next''), (''https://x.test?page=9'', ''last'')])) =
       [(''next'', ''https://x.test?page=2''), (''last'', ''https://x.test?page=9'')]
   \<and> addLink [(''next'', ''https://x.test?page=2'')] ''<https://x.test?page=4>; type=x'' =
       [(''next'', ''https://x.test?page=2'')]"
  using parseLinkHeader_wellformed_entries
    [of "[(''https://x.test?page=2'', ''next''), (''https://x.test?page=9'', ''last'')]"
        "''<https://x.test?page=4>; type=x''" "[(''next'', ''https://x.test?page=2'')]"]
  by (simp add: wfEntry_def wfUrl_def wfRel_def relOpen_def dq_def sublist_Cons_right)

text \<open>
  C3 as stated fails on two inputs.  Two well-formed entries that carry the same
  relation name give one mapping entry, the later URL replacing the earlier one.  An
  entry without angle brackets is not dropped: its bare text becomes the URL.
\<close>

theorem parseLinkHeader_counterexample:
  "wfEntry (''a'', ''next'') \<and> wfEntry (''b'', ''next'')
   \<and> parseLinkHeader (Some (linkHeaderOf [(''a'', ''next''), (''b'', ''next'')])) = [(''next'', ''b'')]
   \<and> length (parseLinkHeader (Some (linkHeaderOf [(''a'', ''next''), (''b'', ''next'')]))) \<noteq> 2
   \<and> parseLinkHeader (Some (''a; rel='' @ [dq] @ ''next'' @ [dq])) = [(''next'', ''a'')]"
  by (simp add: parseLinkHeader_def linkEntry_def addLink_def dq_def trim_def isSpace_def
      stripAngles_def relOpen_def relCapture_def isLineTerminator_def setProperty_def
      wfEntry_def wfUrl_def wfRel_def)

section \<open>Properties of the message score\<close>

lemma messageScore_sum:
  "messageScore m =
     (if length m > 10 then 25 else 0) + (if length m > 30 then 25 else 0)
     + (if hasConventionalPrefix m then 25 else 0) + (if hasIssueRef m then 25 else 0)"
  by (simp add: messageScore_def)

lemma asciiLower_fix: "map asciiLower ''fix:'' = ''fix:''"
  by (simp add: asciiLower_def)

lemma prefix_fix: "prefix ''fix:'' m \<Longrightarrow> hasConventionalPrefix m"
proof -
  assume "prefix ''fix:'' m"
  then have "prefix (map asciiLower ''fix:'') (map asciiLower m)" by (rule map_mono_prefix)
  then have "prefix ''fix:'' (map asciiLower m)" by (simp only: asciiLower_fix)
  then show ?thesis by (simp add: hasConventionalPrefix_def conventionalTypes_def)
qed

lemma hasIssueRef_Cons: "hasIssueRef cs \<Longrightarrow> hasIssueRef (c # cs)"
  by (cases cs) auto

lemma hasIssueRef_prefix: "prefix [CHR ''#'', d] m \<Longrightarrow> isDigit d \<Longrightarrow> hasIssueRef m"
  by (cases m; cases "tl m") (auto simp: prefix_def)

lemma hasIssueRef_sublist: "sublist [CHR ''#'', d] m \<Longrightarrow> isDigit d \<Longrightarrow> hasIssueRef m"
proof (induction m)
  case Nil
  then show ?case by simp
next
  case (Cons c cs)
  from Cons.prems(1) have "prefix [CHR ''#'', d] (c # cs) \<or> sublist [CHR ''#'', d] cs"
    by (simp add: sublist_Cons_right)
  then show ?case
    using Cons.IH Cons.prems(2) hasIssueRef_prefix hasIssueRef_Cons by blast
qed

lemma sublist_42: "sublist ''#42'' m \<Longrightarrow> hasIssueRef m"
proof -
  assume "sublist ''#42'' m"
  moreover have "sublist ''#4'' ''#42''" by (simp add: sublist_Cons_right)
  ultimately have "sublist ''#4'' m" using sublist_order.order_trans by blast
  then show ?thesis by (rule hasIssueRef_sublist) (simp add: isDigit_def)
qed

lemma prefix_nth: "prefix p xs \<longleftrightarrow> length p \<le> length xs \<and> (\<forall>i<length p. xs ! i = p ! i)"
proof
  assume "prefix p xs"
  then obtain r where "xs = p @ r" by (auto simp: prefix_def)
  then show "length p \<le> length xs \<and> (\<forall>i<length p. xs ! i = p ! i)"
    by (simp add: nth_append)
next
  assume a: "length p \<le> length xs \<and> (\<forall>i<length p. xs ! i = p ! i)"
  then have "take (length p) xs = p"
    by (intro nth_equalityI) simp_all
  then show "prefix p xs" by (metis take_is_prefix)
qed

lemma fold_table:
  assumes d: "distinct us" "distinct ls" and l: "length us = length ls"
    and x: "set us \<inter> set ls = {}" and p: "(U, u) \<in> set (zip us ls)"
  shows "(case map_of (zip us ls) c of None \<Rightarrow> c | Some e \<Rightarrow> e) = u \<longleftrightarrow> c = u \<or> c = U"
proof (cases "map_of (zip us ls) c")
  case None
  then have "c \<notin> set us" using l by (simp add: map_of_zip_is_None)
  moreover have "U \<in> set us" using p by (rule set_zip_leftD)
  ultimately show ?thesis using None by auto
next
  case (Some e)
  then have ce: "(c, e) \<in> set (zip us ls)" by (rule map_of_SomeD)
  then have cu: "c \<in> set us" by (rule set_zip_leftD)
  have "u \<in> set ls" using p by (rule set_zip_rightD)
  with x cu have ne: "c \<noteq> u" by auto
  have "e = u \<longleftrightarrow> c = U"
  proof
    assume "e = u"
    with ce obtain i where i: "i < length ls" "us ! i = c" "ls ! i = u"
      by (auto simp: set_zip l)
    from p obtain j where j: "j < length ls" "us ! j = U" "ls ! j = u"
      by (auto simp: set_zip l)
    from i j have "ls ! i = ls ! j" by simp
    with d(2) i(1) j(1) have "i = j" by (simp add: nth_eq_iff_index_eq)
    with i j show "c = U" by simp
  next
    assume "c = U"
    have "map_of (zip us ls) U = Some u"
      using p d(1) l by (intro map_of_is_SomeI) simp_all
    with Some \<open>c = U\<close> show "e = u" by simp
  qed
  with Some ne show ?thesis by simp
qed

lemma letters_distinct:
  "distinct ''ABCDEFGHIJKLMNOPQRSTUVWXYZ''" "distinct ''abcdefghijklmnopqrstuvwxyz''"
  "set ''ABCDEFGHIJKLMNOPQRSTUVWXYZ'' \<inter> set ''abcdefghijklmnopqrstuvwxyz'' = {}"
  by simp_all

lemma asciiLower_letter:
  "(U, u) \<in> set (zip ''ABCDEFGHIJKLMNOPQRSTUVWXYZ'' ''abcdefghijklmnopqrstuvwxyz'') \<Longrightarrow>
   asciiLower c = u \<longleftrightarrow> c = u \<or> c = U"
  unfolding asciiLower_def
  by (rule fold_table [OF letters_distinct(1,2) _ letters_distinct(3)]) simp_all

lemma asciiLower_colon: "asciiLower c = CHR '':'' \<longleftrightarrow> c = CHR '':''"
  by (auto simp: asciiLower_def split: if_splits)

lemma startsWithWord_prefix:
  assumes "list_all2 (\<lambda>d D. (D, d) \<in> set (zip ''ABCDEFGHIJKLMNOPQRSTUVWXYZ'' ''abcdefghijklmnopqrstuvwxyz''))
     (fst p) (snd p)"
  shows "prefix (fst p @ '':'') (map asciiLower m) \<longleftrightarrow> startsWithWord p m"
proof -
  let ?w = "fst p"
  have pair: "(snd p ! i, ?w ! i) \<in> set (zip ''ABCDEFGHIJKLMNOPQRSTUVWXYZ'' ''abcdefghijklmnopqrstuvwxyz'')"
    if "i < length ?w" for i
    using assms that by (simp add: list_all2_conv_all_nth)
  have "prefix (?w @ '':'') (map asciiLower m) \<longleftrightarrow>
      length ?w < length m \<and> (\<forall>i<Suc (length ?w). asciiLower (m ! i) = (?w @ '':'') ! i)"
    by (auto simp: prefix_nth)
  also have "\<dots> \<longleftrightarrow> length ?w < length m \<and> asciiLower (m ! length ?w) = CHR '':''
      \<and> (\<forall>i<length ?w. asciiLower (m ! i) = ?w ! i)"
    by (auto simp: less_Suc_eq nth_append)
  also have "\<dots> \<longleftrightarrow> startsWithWord p m"
    using asciiLower_letter [OF pair] by (auto simp: startsWithWord_def asciiLower_colon)
  finally show ?thesis .
qed

lemma hasConventionalPrefix_words:
  "hasConventionalPrefix m \<longleftrightarrow> list_ex (\<lambda>p. startsWithWord p m) conventionalWords"
proof -
  have w: "list_all (\<lambda>p. list_all2 (\<lambda>d D. (D, d) \<in>
      set (zip ''ABCDEFGHIJKLMNOPQRSTUVWXYZ'' ''abcdefghijklmnopqrstuvwxyz'')) (fst p) (snd p))
      conventionalWords"
    by (simp add: conventionalWords_def)
  have t: "conventionalTypes = map fst conventionalWords"
    by (simp add: conventionalTypes_def conventionalWords_def)
  have "hasConventionalPrefix m \<longleftrightarrow>
      (\<exists>p\<in>set conventionalWords. prefix (fst p @ '':'') (map asciiLower m))"
    by (simp add: hasConventionalPrefix_def t list_ex_iff)
  also have "\<dots> \<longleftrightarrow> (\<exists>p\<in>set conventionalWords. startsWithWord p m)"
    using w startsWithWord_prefix by (auto simp: list_all_iff)
  finally show ?thesis by (simp add: list_ex_iff)
qed

lemma hasIssueRef_nth:
  "hasIssueRef m \<longleftrightarrow> (\<exists>i. Suc i < length m \<and> m ! i = CHR ''#'' \<and> isDigit (m ! Suc i))"
proof (induction m rule: hasIssueRef.induct)
  case (1 c d cs)
  have "(\<exists>i. Suc i < length (c # d # cs) \<and> (c # d # cs) ! i = CHR ''#''
          \<and> isDigit ((c # d # cs) ! Suc i))
      \<longleftrightarrow> (c = CHR ''#'' \<and> isDigit d)
        \<or> (\<exists>i. Suc i < length (d # cs) \<and> (d # cs) ! i = CHR ''#'' \<and> isDigit ((d # cs) ! Suc i))"
    (is "(\<exists>i. ?P i) \<longleftrightarrow> ?A \<or> (\<exists>i. ?Q i)")
  proof
    assume "\<exists>i. ?P i"
    then obtain i where i: "?P i" ..
    show "?A \<or> (\<exists>i. ?Q i)"
    proof (cases i)
      case 0
      with i show ?thesis by simp
    next
      case (Suc j)
      with i have "?Q j" by simp
      then show ?thesis by blast
    qed
  next
    assume "?A \<or> (\<exists>i. ?Q i)"
    then show "\<exists>i. ?P i"
    proof
      assume ?A
      then have "?P 0" by simp
      then show ?thesis ..
    next
      assume "\<exists>i. ?Q i"
      then obtain j where "?Q j" ..
      then have "?P (Suc j)" by simp
      then show ?thesis ..
    qed
  qed
  with "1.IH" show ?case by (simp only: hasIssueRef.simps)
next
  case "2_1"
  then show ?case by simp
next
  case "2_2"
  then show ?case by simp
qed

lemma hasIssueRef_digits:
  "hasIssueRef m \<longleftrightarrow>
     (\<exists>i. Suc i < length m \<and> m ! i = CHR ''#'' \<and> m ! Suc i \<in> set ''0123456789'')"
  by (simp only: hasIssueRef_nth isDigit_def)

lemma prefix_examples:
  "hasConventionalPrefix ''PERF: tune'' \<and> hasConventionalPrefix ''ReFactor: x''
   \<and> \<not> hasConventionalPrefix ''fixes: x'' \<and> \<not> hasConventionalPrefix ''a fix: x''
   \<and> hasIssueRef ''see #7'' \<and> \<not> hasIssueRef ''#a1'' \<and> \<not> hasIssueRef ''7#''"
  by (simp add: hasConventionalPrefix_def conventionalTypes_def asciiLower_def isDigit_def)

text \<open>
  C8 (as amended).  The score of a message is the sum of four checks worth 25 each:
  more than 10 characters; more than 30 characters; a conventional-commit prefix, which
  is one of the words feat, fix, docs, refactor, test, chore, style, perf at the start
  with each letter in either case and a colon after it; an issue reference, which is a
  hash sign with a decimal digit after it, anywhere.  A message of length 5 with neither
  prefix nor reference scores 0, one of length 15 with neither scores 25, one of length
  35 that starts with \<^verbatim>\<open>fix:\<close> and has no reference scores 75, and one of length 35
  that starts with \<^verbatim>\<open>fix:\<close> and contains \<^verbatim>\<open>#42\<close> scores 100.
\<close>

theorem messageScore_four_checks:
  "messageScore m =
     (if length m > 10 then 25 else 0) + (if length m > 30 then 25 else 0)
     + (if hasConventionalPrefix m then 25 else 0) + (if hasIssueRef m then 25 else 0)
   \<and> hasConventionalPrefix m =
       list_ex (\<lambda>p. length (fst p) < length m \<and> m ! length (fst p) = CHR '':''
                  \<and> (\<forall>i<length (fst p). m ! i = fst p ! i \<or> m ! i = snd p ! i))
         [(''feat'', ''FEAT''), (''fix'', ''FIX''), (''docs'', ''DOCS''),
          (''refactor'', ''REFACTOR''), (''test'', ''TEST''), (''chore'', ''CHORE''),
          (''style'', ''STYLE''), (''perf'', ''PERF'')]
   \<and> hasIssueRef m =
       (\<exists>i. Suc i < length m \<and> m ! i = CHR ''#'' \<and> m ! Suc i \<in> set ''0123456789'')
   \<and> (length m = 5 \<and> \<not> hasConventionalPrefix m \<and> \<not> hasIssueRef m \<longrightarrow> messageScore m = 0)
   \<and> (length m = 15 \<and> \<not> hasConventionalPrefix m \<and> \<not> hasIssueRef m \<longrightarrow> messageScore m = 25)
   \<and> (length m = 35 \<and> prefix ''fix:'' m \<and> \<not> hasIssueRef m \<longrightarrow> messageScore m = 75)
   \<and> (length m = 35 \<and> prefix ''fix:'' m \<and> sublist ''#42'' m \<longrightarrow> messageScore m = 100)"
proof -
  have p: "hasConventionalPrefix m =
       list_ex (\<lambda>p. length (fst p) < length m \<and> m ! length (fst p) = CHR '':''
                  \<and> (\<forall>i<length (fst p). m ! i = fst p ! i \<or> m ! i = snd p ! i))
         [(''feat'', ''FEAT''), (''fix'', ''FIX''), (''docs'', ''DOCS''),
          (''refactor'', ''REFACTOR''), (''test'', ''TEST''), (''chore'', ''CHORE''),
          (''style'', ''STYLE''), (''perf'', ''PERF'')]"
    using hasConventionalPrefix_words [of m]
    by (simp only: conventionalWords_def startsWithWord_def)
  have r: "hasIssueRef m =
       (\<exists>i. Suc i < length m \<and> m ! i = CHR ''#'' \<and> m ! Suc i \<in> set ''0123456789'')"
    by (rule hasIssueRef_digits)
  have a: "length m = 5 \<and> \<not> hasConventionalPrefix m \<and> \<not> hasIssueRef m \<longrightarrow> messageScore m = 0"
    by (simp add: messageScore_sum)
  have b: "length m = 15 \<and> \<not> hasConventionalPrefix m \<and> \<not> hasIssueRef m \<longrightarrow> messageScore m = 25"
    by (simp add: messageScore_sum)
  have c: "length m = 35 \<and> prefix ''fix:'' m \<and> \<not> hasIssueRef m \<longrightarrow> messageScore m = 75"
    using prefix_fix [of m] by (simp add: messageScore_sum)
  have d: "length m = 35 \<and> prefix ''fix:'' m \<and> sublist ''#42'' m \<longrightarrow> messageScore m = 100"
    using prefix_fix [of m] sublist_42 [of m] by (simp add: messageScore_sum)
  show ?thesis
    by (intro conjI messageScore_sum p r a b c d)
qed


theorem messageScore_four_checks_witness:
  "length ''hello'' = 5 \<and> \<not> hasConventionalPrefix ''hello'' \<and> \<not> hasIssueRef ''hello''
   \<and> messageScore ''hello'' = 0
   \<and> length ''hello world abc'' = 15 \<and> \<not> hasConventionalPrefix ''hello world abc''
   \<and> \<not> hasIssueRef ''hello world abc''
   \<and> messageScore ''hello world abc'' = 25
   \<and> length ''fix: skip an entry without rel name'' = 35
   \<and> prefix ''fix:'' ''fix: skip an entry without rel name''
   \<and> \<not> hasIssueRef ''fix: skip an entry without rel name''
   \<and> messageScore ''fix: skip an entry without rel name'' = 75
   \<and> length ''fix: skip entries without rel (#42)'' = 35
   \<and> prefix ''fix:'' ''fix: skip entries without rel (#42)''
   \<and> sublist ''#42'' ''fix: skip entries without rel (#42)''
   \<and> messageScore ''fix: skip entries without rel (#42)'' = 100
   \<and> hasConventionalPrefix ''PERF: tune'' \<and> hasConventionalPrefix ''ReFactor: x''
   \<and> \<not> hasConventionalPrefix ''fixes: x'' \<and> \<not> hasConventionalPrefix ''a fix: x''
   \<and> hasIssueRef ''see #7'' \<and> \<not> hasIssueRef ''#a1'' \<and> \<not> hasIssueRef ''7#''"
proof -
  have h1: "length ''hello'' = 5 \<and> \<not> hasConventionalPrefix ''hello'' \<and> \<not> hasIssueRef ''hello''"
    by (simp add: hasConventionalPrefix_def conventionalTypes_def asciiLower_def)
  have h2: "length ''hello world abc'' = 15 \<and> \<not> hasConventionalPrefix ''hello world abc''
      \<and> \<not> hasIssueRef ''hello world abc''"
    by (simp add: hasConventionalPrefix_def conventionalTypes_def asciiLower_def)
  have h3: "length ''fix: skip an entry without rel name'' = 35
      \<and> prefix ''fix:'' ''fix: skip an entry without rel name''
      \<and> \<not> hasIssueRef ''fix: skip an entry without rel name''"
    by simp
  have h4: "length ''fix: skip entries without rel (#42)'' = 35
      \<and> prefix ''fix:'' ''fix: skip entries without rel (#42)''
      \<and> sublist ''#42'' ''fix: skip entries without rel (#42)''"
    by (simp add: sublist_Cons_right)
  have r1: "messageScore ''hello'' = 0"
    by (rule messageScore_four_checks
          [THEN conjunct2, THEN conjunct2, THEN conjunct2, THEN conjunct1, rule_format])
       (rule h1)
  have r2: "messageScore ''hello world abc'' = 25"
    by (rule messageScore_four_checks
          [THEN conjunct2, THEN conjunct2, THEN conjunct2, THEN conjunct2, THEN conjunct1,
           rule_format])
       (rule h2)
  have r3: "messageScore ''fix: skip an entry without rel name'' = 75"
    by (rule messageScore_four_checks
          [THEN conjunct2, THEN conjunct2, THEN conjunct2, THEN conjunct2, THEN conjunct2,
           THEN conjunct1, rule_format])
       (rule h3)
  have r4: "messageScore ''fix: skip entries without rel (#42)'' = 100"
    by (rule messageScore_four_checks
          [THEN conjunct2, THEN conjunct2, THEN conjunct2, THEN conjunct2, THEN conjunct2,
           THEN conjunct2, rule_format])
       (rule h4)
  show ?thesis
    by (intro conjI h1 [THEN conjunct1] h1 [THEN conjunct2, THEN conjunct1]
         h1 [THEN conjunct2, THEN conjunct2] r1
         h2 [THEN conjunct1] h2 [THEN conjunct2, THEN conjunct1]
         h2 [THEN conjunct2, THEN conjunct2] r2
         h3 [THEN conjunct1] h3 [THEN conjunct2, THEN conjunct1]
         h3 [THEN conjunct2, THEN conjunct2] r3
         h4 [THEN conjunct1] h4 [THEN conjunct2, THEN conjunct1]
         h4 [THEN conjunct2, THEN conjunct2] r4
         prefix_examples [THEN conjunct1]
         prefix_examples [THEN conjunct2, THEN conjunct1]
         prefix_examples [THEN conjunct2, THEN conjunct2, THEN conjunct1]
         prefix_examples [THEN conjunct2, THEN conjunct2, THEN conjunct2, THEN conjunct1]
         prefix_examples [THEN conjunct2, THEN conjunct2, THEN conjunct2, THEN conjunct2,
           THEN conjunct1]
         prefix_examples [THEN conjunct2, THEN conjunct2, THEN conjunct2, THEN conjunct2,
           THEN conjunct2, THEN conjunct1]
         prefix_examples [THEN conjunct2, THEN conjunct2, THEN conjunct2, THEN conjunct2,
           THEN conjunct2, THEN conjunct2])
qed

text \<open>
  C8 as stated fails: the length alone does not fix the score.  The message
  \<^verbatim>\<open>fix:a\<close> has length 5 and scores 25, and \<^verbatim>\<open>bump deps (#12)\<close> has length 15 and
  scores 50.
\<close>

theorem messageScore_counterexample:
  "length ''fix:a'' = 5 \<and> messageScore ''fix:a'' = 25
   \<and> length ''bump deps (#12)'' = 15 \<and> messageScore ''bump deps (#12)'' = 50"
  by (simp add: messageScore_def hasConventionalPrefix_def conventionalTypes_def asciiLower_def
      isDigit_def)

section \<open>Properties of the overall message quality\<close>

lemma totalMessageScore_baseStep:
  "totalMessageScore (baseStep b c) =
     totalMessageScore b + (if date c \<noteq> None then messageScore (message c) else 0)"
  by (cases "date c") (simp_all add: baseStep_def Let_def)

lemma commitDates_baseStep:
  "commitDates (baseStep b c) = commitDates b @ (case date c of None \<Rightarrow> [] | Some d \<Rightarrow> [d])"
  by (cases "date c") (simp_all add: baseStep_def Let_def)

lemma totalMessageScore_foldl:
  "totalMessageScore (foldl baseStep b cs) =
     totalMessageScore b + sum_list (map (\<lambda>c. messageScore (message c)) (validCommits cs))"
proof (induction cs arbitrary: b)
  case Nil
  then show ?case by (simp add: validCommits_def)
next
  case (Cons c cs)
  have "totalMessageScore (foldl baseStep b (c # cs)) =
      totalMessageScore (baseStep b c)
      + sum_list (map (\<lambda>c. messageScore (message c)) (validCommits cs))"
    by (simp add: Cons.IH)
  then show ?case
    by (simp add: totalMessageScore_baseStep validCommits_def)
qed

lemma commitDates_foldl:
  "commitDates (foldl baseStep b cs) = commitDates b @ List.map_filter date cs"
proof (induction cs arbitrary: b)
  case Nil
  then show ?case by (simp add: map_filter_simps)
next
  case (Cons c cs)
  have "commitDates (foldl baseStep b (c # cs)) =
      commitDates (baseStep b c) @ List.map_filter date cs"
    by (simp add: Cons.IH)
  then show ?case
    by (cases "date c") (simp_all add: commitDates_baseStep map_filter_simps)
qed

lemma totalMessageScore_base:
  "totalMessageScore (baseDistributions cs) =
     sum_list (map (\<lambda>c. messageScore (message c)) (validCommits cs))"
  by (simp add: baseDistributions_def totalMessageScore_foldl baseInit_def)

lemma commitDates_base: "commitDates (baseDistributions cs) = List.map_filter date cs"
  by (simp add: baseDistributions_def commitDates_foldl baseInit_def)

lemma messageQualityScore_eq:
  "messageQualityScore cs =
     (if cs = [] then 0
      else mathRound (real (sum_list (map (\<lambda>c. messageScore (message c)) (validCommits cs)))
             / real (length cs)))"
  by (simp add: messageQualityScore_def totalMessageScore_base Let_def)

lemma messageQualityScore_all_valid:
  "list_all (\<lambda>c. date c \<noteq> None) cs \<Longrightarrow> messageQualityScore cs = meanMessageScore (validCommits cs)"
proof -
  assume "list_all (\<lambda>c. date c \<noteq> None) cs"
  then have "validCommits cs = cs"
    by (simp add: validCommits_def list_all_iff)
  then show ?thesis by (simp add: messageQualityScore_eq meanMessageScore_def)
qed

text \<open>
  C1.  The claim reads the overall score as the rounded mean over the commits that have
  a valid timestamp.  The code adds the message scores of exactly those commits, but
  divides the sum by the number of all commits.  With one dated commit whose message
  scores 100 and one commit without a date the code returns 50, where the mean over the
  dated commits is 100.
\<close>

theorem messageQualityScore_undated_commit:
  "messageQualityScore
     [\<lparr>sha = Some ''a1'', date = Some \<lparr>getTime = 1700000000000, getHours = 10, getDay = 2\<rparr>,
       message = ''fix: skip entries without rel (#42)'', url = ''u1''\<rparr>,
      \<lparr>sha = Some ''b2'', date = None, message = ''wip'', url = ''u2''\<rparr>] = 50
   \<and> meanMessageScore (validCommits
     [\<lparr>sha = Some ''a1'', date = Some \<lparr>getTime = 1700000000000, getHours = 10, getDay = 2\<rparr>,
       message = ''fix: skip entries without rel (#42)'', url = ''u1''\<rparr>,
      \<lparr>sha = Some ''b2'', date = None, message = ''wip'', url = ''u2''\<rparr>]) = 100"
proof -
  have s: "messageScore ''fix: skip entries without rel (#42)'' = 100"
    by (simp add: messageScore_def hasConventionalPrefix_def conventionalTypes_def
        asciiLower_def isDigit_def)
  show ?thesis
    by (simp add: messageQualityScore_eq meanMessageScore_def validCommits_def s mathRound_def)
qed

section \<open>Properties of the consistency score\<close>

lemma upt_1_Suc_Suc: "[Suc 0..<Suc (Suc n)] = Suc 0 # map Suc [Suc 0..<Suc n]"
  by (simp add: upt_conv_Cons map_Suc_upt del: upt_Suc)

lemma index_gaps:
  "map (\<lambda>i. real_of_int (f (xs ! i) - f (xs ! (i - 1))) / msPerDay) [1..<length xs] =
   dayGaps (map f xs)"
proof (induction xs rule: induct_list012)
  case 1
  then show ?case by simp
next
  case (2 x)
  then show ?case by simp
next
  case (3 x y zs)
  let ?g = "\<lambda>ws i. real_of_int (f (ws ! i) - f (ws ! (i - 1))) / msPerDay"
  have shift: "map (?g (x # y # zs)) (map Suc [Suc 0..<Suc (length zs)]) =
        map (?g (y # zs)) [Suc 0..<Suc (length zs)]"
    unfolding map_map by (rule map_cong) (auto simp: nth_Cons')
  have "map (?g (x # y # zs)) [1..<length (x # y # zs)] =
      ?g (x # y # zs) (Suc 0) # map (?g (x # y # zs)) (map Suc [Suc 0..<Suc (length zs)])"
    by (simp only: One_nat_def length_Cons upt_1_Suc_Suc list.map)
  also have "\<dots> = real_of_int (f y - f x) / msPerDay # map (?g (y # zs)) [1..<length (y # zs)]"
    by (simp only: shift) simp
  also have "\<dots> = real_of_int (f y - f x) / msPerDay # dayGaps (map f (y # zs))"
    by (simp only: "3.IH"(2))
  finally show ?case by simp
qed

lemma map_insort_key: "map f (insort_key f x ys) = insort (f x) (map f ys)"
  by (induction ys) simp_all

lemma map_sort_key: "map f (sort_key f xs) = sort (map f xs)"
  by (induction xs) (simp_all add: map_insort_key)

lemma intervals_dayGaps:
  "intervals (sortedDates ds) = filter (\<lambda>g. g \<ge> 0) (dayGaps (sort (map getTime ds)))"
proof -
  have "map (\<lambda>i. real_of_int (getTime (sort_key getTime ds ! i)
            - getTime (sort_key getTime ds ! (i - 1))) / msPerDay)
          [1..<length (sort_key getTime ds)] =
        dayGaps (map getTime (sort_key getTime ds))"
    by (rule index_gaps)
  then show ?thesis
    by (simp only: intervals_def sortedDates_def map_sort_key)
qed

lemma avgInterval_meanGap: "avgInterval iv = meanGap iv"
  by (simp add: avgInterval_def meanGap_def)

lemma consistencyScore_gapConsistency:
  "consistencyScore cs = gapConsistency (validTimes cs)"
  by (simp add: consistencyScore_def gapConsistency_def validTimes_def commitDates_base
      intervals_dayGaps avgInterval_meanGap clamp_def Let_def)

lemma gapConsistency_range: "0 \<le> gapConsistency ts \<and> gapConsistency ts \<le> 100"
  by (simp add: gapConsistency_def)

lemma gapConsistency_short: "length ts \<le> 1 \<Longrightarrow> gapConsistency ts = 100"
  by (cases ts; cases "tl ts") (simp_all add: gapConsistency_def meanGap_def)

lemma gapConsistency_daily:
  "sort ts = [t, t + 86400000, t + 2 * 86400000] \<Longrightarrow> gapConsistency ts = 95"
  by (simp add: gapConsistency_def meanGap_def msPerDay_def)

text \<open>
  C5.  The consistency score of the code is \<^verbatim>\<open>clamp(100 - average gap * 5, 0, 100)\<close>
  over the gaps in days between neighbours of the ascending valid timestamps, negative
  gaps left out; it lies between 0 and 100.  With at most one valid timestamp the score
  is 100.  With three valid timestamps one day apart (in any order in the list, and
  whatever commits without a date stand between them) the score is 95.
\<close>

theorem consistencyScore_gaps:
  "consistencyScore cs = gapConsistency (validTimes cs)
   \<and> 0 \<le> consistencyScore cs \<and> consistencyScore cs \<le> 100
   \<and> (length (validTimes cs) \<le> 1 \<longrightarrow> consistencyScore cs = 100)
   \<and> (sort (validTimes cs) = [t, t + 86400000, t + 2 * 86400000] \<longrightarrow> consistencyScore cs = 95)"
  using consistencyScore_gapConsistency [of cs] gapConsistency_range [of "validTimes cs"]
    gapConsistency_short [of "validTimes cs"] gapConsistency_daily [of "validTimes cs" t]
  by simp

theorem consistencyScore_gaps_witness:
  "length (validTimes [\<lparr>sha = Some ''a1'',
       date = Some \<lparr>getTime = 1700000000000, getHours = 10, getDay = 2\<rparr>,
       message = ''init'', url = ''u1''\<rparr>]) \<le> 1
   \<and> consistencyScore [\<lparr>sha = Some ''a1'',
       date = Some \<lparr>getTime = 1700000000000, getHours = 10, getDay = 2\<rparr>,
       message = ''init'', url = ''u1''\<rparr>] = 100
   \<and> sort (validTimes
       [\<lparr>sha = Some ''c3'', date = Some \<lparr>getTime = 1700172800000, getHours = 10, getDay = 4\<rparr>,
         message = ''third'', url = ''u3''\<rparr>,
        \<lparr>sha = Some ''x0'', date = None, message = ''undated'', url = ''u0''\<rparr>,
        \<lparr>sha = Some ''a1'', date = Some \<lparr>getTime = 1700000000000, getHours = 10, getDay = 2\<rparr>,
         message = ''first'', url = ''u1''\<rparr>,
        \<lparr>sha = Some ''b2'', date = Some \<lparr>getTime = 1700086400000, getHours = 10, getDay = 3\<rparr>,
         message = ''second'', url = ''u2''\<rparr>]) =
       [1700000000000, 1700000000000 + 86400000, 1700000000000 + 2 * 86400000]
   \<and> consistencyScore
       [\<lparr>sha = Some ''c3'', date = Some \<lparr>getTime = 1700172800000, getHours = 10, getDay = 4\<rparr>,
         message = ''third'', url = ''u3''\<rparr>,
        \<lparr>sha = Some ''x0'', date = None, message = ''undated'', url = ''u0''\<rparr>,
        \<lparr>sha = Some ''a1'', date = Some \<lparr>getTime = 1700000000000, getHours = 10, getDay = 2\<rparr>,
         message = ''first'', url = ''u1''\<rparr>,
        \<lparr>sha = Some ''b2'', date = Some \<lparr>getTime = 1700086400000, getHours = 10, getDay = 3\<rparr>,
         message = ''second'', url = ''u2''\<rparr>] = 95"
  (is "?h1 \<and> ?r1 \<and> ?h2 \<and> ?r2")
proof -
  have h1: ?h1
    by (simp add: validTimes_def map_filter_simps)
  have h2: ?h2
    by (simp add: validTimes_def map_filter_simps)
  have r1: ?r1
    by (rule consistencyScore_gaps
          [THEN conjunct2, THEN conjunct2, THEN conjunct2, THEN conjunct1, rule_format])
       (rule h1)
  have r2: ?r2
    by (rule consistencyScore_gaps
          [THEN conjunct2, THEN conjunct2, THEN conjunct2, THEN conjunct2, rule_format])
       (rule h2)
  show ?thesis
    by (intro conjI h1 h2 r1 r2)
qed

section \<open>Properties of the commit lister\<close>

lemma foldl_addCommit_fields:
  "seenPageUrls (foldl addCommit st cs) = seenPageUrls st
   \<and> nextUrl (foldl addCommit st cs) = nextUrl st
   \<and> pageCount (foldl addCommit st cs) = pageCount st"
proof (induction cs arbitrary: st)
  case Nil
  then show ?case by simp
next
  case (Cons c cs)
  have "seenPageUrls (addCommit st c) = seenPageUrls st
      \<and> nextUrl (addCommit st c) = nextUrl st \<and> pageCount (addCommit st c) = pageCount st"
    by (simp add: addCommit_def split: option.splits)
  with Cons.IH [of "addCommit st c"] show ?case by simp
qed

lemma mergePage_fields:
  "seenPageUrls (mergePage st r json) = seenPageUrls st
   \<and> nextUrl (mergePage st r json) = nextLink r
   \<and> pageCount (mergePage st r json) = pageCount st
   \<and> allCommits (mergePage st r json) = allCommits (foldl addCommit st json)
   \<and> seenShas (mergePage st r json) = seenShas (foldl addCommit st json)"
  by (simp add: mergePage_def Let_def foldl_addCommit_fields)

lemma foldl_addCommit_cong:
  "allCommits st = allCommits st' \<Longrightarrow> seenShas st = seenShas st' \<Longrightarrow>
   allCommits (foldl addCommit st cs) = allCommits (foldl addCommit st' cs)
   \<and> seenShas (foldl addCommit st cs) = seenShas (foldl addCommit st' cs)"
proof (induction cs arbitrary: st st')
  case Nil
  then show ?case by simp
next
  case (Cons c cs)
  have "allCommits (addCommit st c) = allCommits (addCommit st' c)
      \<and> seenShas (addCommit st c) = seenShas (addCommit st' c)"
    using Cons.prems by (simp add: addCommit_def split: option.splits)
  with Cons.IH [of "addCommit st c" "addCommit st' c"] show ?case by simp
qed

lemma listStep_More:
  assumes "listStep srv st = More u st'"
  shows "u = nextUrl st \<and> u \<noteq> [] \<and> u \<notin> seenPageUrls st
     \<and> seenPageUrls st' = insert u (seenPageUrls st)
     \<and> pageCount st' = Suc (pageCount st)
     \<and> nextUrl st' = nextLinkOf (srv (pageCount st) u)
     \<and> allCommits st' = allCommits (foldl addCommit st (pageItemsAt srv (pageCount st) u))
     \<and> seenShas st' = seenShas (foldl addCommit st (pageItemsAt srv (pageCount st) u))"
proof -
  let ?st1 = "st\<lparr>seenPageUrls := insert (nextUrl st) (seenPageUrls st), pageCount := pageCount st + 1\<rparr>"
  from assms obtain r json where
    u: "u = nextUrl st" "nextUrl st \<noteq> []" "nextUrl st \<notin> seenPageUrls st"
    and r: "srv (pageCount st) (nextUrl st) = Resp r" "items r = Some json"
    and st': "st' = mergePage ?st1 r json"
    by (auto simp: listStep_def Let_def split: if_splits fetched.splits option.splits)
  have c: "allCommits (foldl addCommit ?st1 json) = allCommits (foldl addCommit st json)
      \<and> seenShas (foldl addCommit ?st1 json) = seenShas (foldl addCommit st json)"
    by (rule foldl_addCommit_cong) simp_all
  show ?thesis
    using u r c
    by (simp add: st' mergePage_fields nextLinkOf_def pageItemsAt_def)
qed

lemma listStep_Done:
  assumes "listStep srv st = Done tr res"
  shows "(tr = [] \<or> tr = [nextUrl st] \<and> nextUrl st \<notin> seenPageUrls st)
     \<and> (\<forall>st'. res = Inr st' \<longrightarrow> allCommits st' = allCommits st
           \<and> (tr \<noteq> [] \<longrightarrow> pageItemsAt srv (pageCount st) (nextUrl st) = []))"
  using assms
  by (auto simp: listStep_def Let_def pageItemsAt_def
      split: if_splits fetched.splits option.splits)

lemma listLoop_trace:
  "listLoop fuel srv st = Some (tr, res) \<Longrightarrow> distinct tr \<and> set tr \<inter> seenPageUrls st = {}"
proof (induction fuel arbitrary: st tr res)
  case 0
  then show ?case by simp
next
  case (Suc fuel)
  show ?case
  proof (cases "listStep srv st")
    case (Done tr' res')
    with Suc.prems have "tr = tr'" by simp
    with listStep_Done [OF Done] show ?thesis by auto
  next
    case (More u st')
    with Suc.prems obtain tr' where
      l: "listLoop fuel srv st' = Some (tr', res)" and tr: "tr = u # tr'"
      by (auto split: option.splits)
    from Suc.IH [OF l] listStep_More [OF More] tr show ?thesis by auto
  qed
qed

lemma listLoop_more_fuel:
  "listLoop fuel srv st = Some x \<Longrightarrow> listLoop (fuel + m) srv st = Some x"
proof (induction fuel arbitrary: st x)
  case 0
  then show ?case by simp
next
  case (Suc fuel)
  show ?case
  proof (cases "listStep srv st")
    case (Done tr' res')
    with Suc.prems show ?thesis by simp
  next
    case (More u st')
    with Suc.prems obtain tr' res where
      l: "listLoop fuel srv st' = Some (tr', res)" and x: "x = (u # tr', res)"
      by (auto split: option.splits)
    from Suc.IH [OF l] More x show ?thesis by simp
  qed
qed

lemma listLoop_terminates_aux:
  assumes cyc: "pageUrl srv seed (Suc k) = pageUrl srv seed j" and jk: "j \<le> k"
  shows "pageCount st = i \<Longrightarrow> i \<le> Suc k \<Longrightarrow> nextUrl st = pageUrl srv seed i \<Longrightarrow>
     (\<forall>m<i. pageUrl srv seed m \<in> seenPageUrls st) \<Longrightarrow>
     \<exists>x. listLoop (Suc (Suc k) - i) srv st = Some x"
proof (induction "Suc k - i" arbitrary: i st)
  case 0
  then have i: "i = Suc k" by simp
  with 0 jk cyc have "nextUrl st \<in> seenPageUrls st" by auto
  then have "listStep srv st = Done [] (Inr st)" by (simp add: listStep_def)
  moreover have "Suc (Suc k) - i = Suc 0" using i by simp
  ultimately show ?case by simp
next
  case (Suc n)
  then have f: "Suc (Suc k) - i = Suc (Suc (Suc k) - Suc i)" by simp
  show ?case
  proof (cases "listStep srv st")
    case (Done tr res)
    then show ?thesis by (simp add: f)
  next
    case (More u st')
    note m = listStep_More [OF More]
    have "\<exists>x. listLoop (Suc (Suc k) - Suc i) srv st' = Some x"
    proof (rule Suc.hyps(1))
      show "n = Suc k - Suc i" using Suc.hyps(2) by simp
      show "pageCount st' = Suc i" using m Suc.prems(1) by simp
      show "Suc i \<le> Suc k" using Suc.hyps(2) by simp
      show "nextUrl st' = pageUrl srv seed (Suc i)" using m Suc.prems(1,3) by simp
      show "\<forall>m<Suc i. pageUrl srv seed m \<in> seenPageUrls st'"
        using m Suc.prems(3,4) by (auto simp: less_Suc_eq)
    qed
    then obtain tr res where "listLoop (Suc (Suc k) - Suc i) srv st' = Some (tr, res)" by auto
    with More show ?thesis by (simp add: f)
  qed
qed

lemma listLoop_terminates:
  assumes "pageUrl srv seed (Suc k) = pageUrl srv seed j" and "j \<le> k"
  shows "\<exists>x. listLoop (Suc (Suc k)) srv (listerInit seed) = Some x"
  using listLoop_terminates_aux [OF assms, of "listerInit seed" 0]
  by (simp add: listerInit_def)

lemma firstOccurrences_subset: "set (firstOccurrences xs) \<subseteq> set xs"
  by (induction xs rule: firstOccurrences.induct) auto

lemma ids_Cons: "ids (c # cs) = (case truthySha c of None \<Rightarrow> ids cs | Some s \<Rightarrow> s # ids cs)"
  by (cases "truthySha c") (simp_all add: ids_def map_filter_simps)

lemma set_ids: "set (ids cs) = {s. \<exists>c\<in>set cs. truthySha c = Some s}"
  by (induction cs) (auto simp: ids_Cons ids_def map_filter_simps split: option.splits)

lemma distinct_ids_firstOccurrences: "distinct (ids (firstOccurrences xs))"
proof (induction xs rule: firstOccurrences.induct)
  case 1
  then show ?case by (simp add: ids_def map_filter_simps)
next
  case (2 c cs)
  let ?rest = "firstOccurrences (filter (\<lambda>d. \<not> sameId c d) cs)"
  show ?case
  proof (cases "truthySha c")
    case None
    with 2 show ?thesis by (simp add: ids_Cons)
  next
    case (Some s)
    have "s \<notin> set (ids ?rest)"
    proof
      assume "s \<in> set (ids ?rest)"
      then obtain d where d: "d \<in> set ?rest" "truthySha d = Some s"
        by (auto simp: set_ids)
      with firstOccurrences_subset [of "filter (\<lambda>d. \<not> sameId c d) cs"]
      have "\<not> sameId c d" by auto
      with Some d show False by (simp add: sameId_def)
    qed
    with 2 Some show ?thesis by (simp add: ids_Cons)
  qed
qed

lemma mem_ids: "s \<in> set (ids cs) \<longleftrightarrow> (\<exists>c\<in>set cs. truthySha c = Some s)"
  by (simp add: set_ids)

lemma set_ids_firstOccurrences: "set (ids (firstOccurrences xs)) = set (ids xs)"
proof (induction xs rule: firstOccurrences.induct)
  case 1
  then show ?case by simp
next
  case (2 c cs)
  let ?f = "filter (\<lambda>d. \<not> sameId c d) cs"
  have k: "s \<in> set (ids (c # ?f)) \<longleftrightarrow> s \<in> set (ids (c # cs))" for s
  proof
    assume "s \<in> set (ids (c # ?f))"
    then obtain d where "d \<in> set (c # ?f)" "truthySha d = Some s"
      unfolding mem_ids by blast
    then have "d \<in> set (c # cs)" "truthySha d = Some s" by auto
    then show "s \<in> set (ids (c # cs))" unfolding mem_ids by blast
  next
    assume "s \<in> set (ids (c # cs))"
    then obtain d where d: "d \<in> set (c # cs)" "truthySha d = Some s"
      unfolding mem_ids by blast
    show "s \<in> set (ids (c # ?f))"
    proof (cases "truthySha c = Some s")
      case True
      then have "\<exists>e\<in>set (c # ?f). truthySha e = Some s" by simp
      then show ?thesis unfolding mem_ids .
    next
      case False
      with d have "d \<in> set cs" "\<not> sameId c d" by (auto simp: sameId_def)
      then have "d \<in> set (c # ?f)" by simp
      with d(2) show ?thesis unfolding mem_ids by blast
    qed
  qed
  have j: "s \<in> set (ids (c # firstOccurrences ?f)) \<longleftrightarrow> s \<in> set (ids (c # ?f))" for s
  proof -
    have "s \<in> set (ids (c # ys)) \<longleftrightarrow> truthySha c = Some s \<or> s \<in> set (ids ys)" for ys
      unfolding mem_ids by simp
    with 2 show ?thesis by simp
  qed
  have "set (ids (firstOccurrences (c # cs))) = set (ids (c # firstOccurrences ?f))" by simp
  also have "\<dots> = set (ids (c # cs))" using j k by blast
  finally show ?case .
qed

lemma subseq_firstOccurrences: "subseq (firstOccurrences xs) xs"
proof (induction xs rule: firstOccurrences.induct)
  case 1
  then show ?case by simp
next
  case (2 c cs)
  have "subseq (filter (\<lambda>d. \<not> sameId c d) cs) cs" by simp
  with 2 have "subseq (firstOccurrences (filter (\<lambda>d. \<not> sameId c d) cs)) cs"
    using subseq_order.order_trans by blast
  then show ?case by simp
qed

lemma foldl_addCommit_firstOccurrences:
  "allCommits (foldl addCommit st xs) =
     allCommits st @ firstOccurrences (filter (unseen (seenShas st)) xs)"
proof (induction xs arbitrary: st)
  case Nil
  then show ?case by simp
next
  case (Cons c cs)
  show ?case
  proof (cases "truthySha c")
    case None
    have f: "filter (\<lambda>d. \<not> sameId c d) ys = ys" for ys
      using None by (simp add: sameId_def)
    have "allCommits (addCommit st c) = allCommits st @ [c]" "seenShas (addCommit st c) = seenShas st"
      using None by (simp_all add: addCommit_def)
    with Cons.IH [of "addCommit st c"] None show ?thesis
      by (simp add: unseen_def f)
  next
    case (Some s)
    show ?thesis
    proof (cases "s \<in> seenShas st")
      case True
      with Some have "addCommit st c = st" by (simp add: addCommit_def)
      with Cons.IH [of st] Some True show ?thesis by (simp add: unseen_def)
    next
      case False
      have a: "allCommits (addCommit st c) = allCommits st @ [c]"
        "seenShas (addCommit st c) = insert s (seenShas st)"
        using Some False by (simp_all add: addCommit_def)
      have u: "unseen (seenShas st) c"
        using Some False by (simp add: unseen_def)
      have f: "filter (unseen (insert s (seenShas st))) cs =
          filter (\<lambda>d. \<not> sameId c d) (filter (unseen (seenShas st)) cs)"
        unfolding filter_filter
        by (rule filter_cong) (auto simp: unseen_def sameId_def Some split: option.splits)
      have "allCommits (foldl addCommit st (c # cs)) =
          allCommits (foldl addCommit (addCommit st c) cs)"
        by simp
      also have "\<dots> = (allCommits st @ [c]) @
          firstOccurrences (filter (unseen (insert s (seenShas st))) cs)"
        by (simp only: Cons.IH a)
      also have "\<dots> = allCommits st @
          firstOccurrences (c # filter (unseen (seenShas st)) cs)"
        by (simp only: f firstOccurrences.simps append_assoc append_Cons append_Nil)
      also have "\<dots> = allCommits st @ firstOccurrences (filter (unseen (seenShas st)) (c # cs))"
        using u by simp
      finally show ?thesis .
    qed
  qed
qed

lemma upt_add_Suc: "[i..<i + Suc n] = i # [Suc i..<Suc i + n]"
  by (simp add: upt_conv_Cons del: upt_Suc)

lemma foldl_addCommit_append:
  "foldl addCommit st (xs @ ys) = foldl addCommit (foldl addCommit st xs) ys"
  by simp

lemma listLoop_pages:
  "listLoop fuel srv st = Some (tr, Inr st') \<Longrightarrow> pageCount st = i \<Longrightarrow>
   nextUrl st = pageUrl srv seed i \<Longrightarrow>
   allCommits st' =
     allCommits (foldl addCommit st (concat (map (pageItems srv seed) [i..<i + length tr])))"
proof (induction fuel arbitrary: st tr i)
  case 0
  then show ?case by simp
next
  case (Suc fuel)
  show ?case
  proof (cases "listStep srv st")
    case (Done tr' res')
    with Suc.prems(1) have e: "tr' = tr" "res' = Inr st'" by simp_all
    from listStep_Done [OF Done] e
    have d: "tr = [] \<or> tr = [nextUrl st]" and c: "allCommits st' = allCommits st"
      and p: "tr \<noteq> [] \<longrightarrow> pageItemsAt srv (pageCount st) (nextUrl st) = []"
      by blast+
    from d show ?thesis
    proof
      assume "tr = []"
      with c show ?thesis by simp
    next
      assume t: "tr = [nextUrl st]"
      with p Suc.prems(2,3) have "pageItems srv seed i = []" by (simp add: pageItems_def)
      with c t show ?thesis by simp
    qed
  next
    case (More u st1)
    note m = listStep_More [OF More]
    from More Suc.prems(1) obtain tr' where
      l: "listLoop fuel srv st1 = Some (tr', Inr st')" and tr: "tr = u # tr'"
      by (auto split: option.splits)
    have p: "pageItemsAt srv (pageCount st) u = pageItems srv seed i"
      using m Suc.prems(2,3) by (simp add: pageItems_def)
    have "allCommits st' =
        allCommits (foldl addCommit st1 (concat (map (pageItems srv seed) [Suc i..<Suc i + length tr'])))"
      using l
    proof (rule Suc.IH)
      show "pageCount st1 = Suc i" using m Suc.prems(2) by simp
      show "nextUrl st1 = pageUrl srv seed (Suc i)" using m Suc.prems(2,3) by simp
    qed
    also have "\<dots> = allCommits (foldl addCommit (foldl addCommit st (pageItems srv seed i))
        (concat (map (pageItems srv seed) [Suc i..<Suc i + length tr'])))"
      using foldl_addCommit_cong [of st1 "foldl addCommit st (pageItems srv seed i)"] m p
      by simp
    also have "\<dots> = allCommits (foldl addCommit st
        (concat (map (pageItems srv seed) [i..<i + length tr])))"
      by (simp only: tr length_Cons upt_add_Suc list.map concat.simps foldl_append)
    finally show ?thesis .
  qed
qed

lemma count_list_distinct: "distinct xs \<Longrightarrow> x \<in> set xs \<Longrightarrow> count_list xs x = 1"
  by (induction xs) (auto simp: count_list_0_iff)

lemma nextLink_okPage_next:
  "wfUrl u \<Longrightarrow> nextLinkOf (okPage (Some (linkEntry (u, ''next''))) cs) = u"
proof -
  assume "wfUrl u"
  then have "parseLinkHeader (Some (linkHeaderOf [(u, ''next'')])) = [(''next'', u)]"
    using parse_rendered [of "[(u, ''next'')]"] by (simp add: wfEntry_def wfRel_def)
  then show ?thesis by (simp add: nextLinkOf_def okPage_def nextLink_def)
qed

lemma nextLink_okPage_none: "nextLinkOf (okPage None cs) = []"
  by (simp add: nextLinkOf_def okPage_def nextLink_def parseLinkHeader_def)


text \<open>
  C6.  If the next link of some page k equals the URL of a page j fetched before it or
  of page k itself, the listing loop returns: fuel k + 2 suffices and more fuel gives
  the same result.  The URLs it fetched are pairwise distinct, so no page URL is
  fetched twice.
\<close>

theorem listLoop_terminates_on_cycle:
  assumes "pageUrl srv seed (Suc k) = pageUrl srv seed j" and "j \<le> k"
  shows "\<exists>tr res. listLoop (Suc (Suc k) + m) srv (listerInit seed) = Some (tr, res) \<and> distinct tr"
proof -
  from listLoop_terminates [OF assms] obtain tr res
    where l: "listLoop (Suc (Suc k)) srv (listerInit seed) = Some (tr, res)" by auto
  then have "listLoop (Suc (Suc k) + m) srv (listerInit seed) = Some (tr, res)"
    by (rule listLoop_more_fuel)
  moreover from l have "distinct tr" using listLoop_trace by blast
  ultimately show ?thesis by blast
qed

lemma pageUrl_cycleFixture:
  "pageUrl cycleFixture ''p1'' (Suc (Suc 0)) = pageUrl cycleFixture ''p1'' 0"
  by (simp add: cycleFixture_def nextLink_okPage_next wfUrl_def)

theorem listLoop_terminates_on_cycle_witness:
  "pageUrl cycleFixture ''p1'' (Suc (Suc 0)) = pageUrl cycleFixture ''p1'' 0
   \<and> (0 :: nat) \<le> Suc 0
   \<and> (\<exists>tr res. listLoop (Suc (Suc (Suc 0)) + 0) cycleFixture (listerInit ''p1'') = Some (tr, res)
         \<and> distinct tr)"
  using listLoop_terminates_on_cycle [of cycleFixture "''p1''" "Suc 0" 0 0] pageUrl_cycleFixture
  by simp

lemma nextLink_next:
  "wfUrl u \<Longrightarrow> nextLink \<lparr>status = n, linkHeader = Some (linkEntry (u, ''next'')),
     rateLimitRemaining = a, rateLimitReset = b, errorText = c, items = d\<rparr> = u"
proof -
  assume "wfUrl u"
  then have "parseLinkHeader (Some (linkHeaderOf [(u, ''next'')])) = [(''next'', u)]"
    using parse_rendered [of "[(u, ''next'')]"] by (simp add: wfEntry_def wfRel_def)
  then show ?thesis by (simp add: nextLink_def)
qed

lemma nextLink_absent:
  "nextLink \<lparr>status = n, linkHeader = None,
     rateLimitRemaining = a, rateLimitReset = b, errorText = c, items = d\<rparr> = []"
  by (simp add: nextLink_def parseLinkHeader_def)


lemma servesPage_step:
  assumes s: "servesPage srv seed i json"
    and st: "pageCount st = i" "nextUrl st = pageUrl srv seed i" "pageUrl srv seed i \<notin> seenPageUrls st"
  shows "\<exists>st'. listStep srv st = More (pageUrl srv seed i) st'"
  using s st
  by (auto simp: servesPage_def listStep_def Let_def split: fetched.splits)

lemma endsListing_step:
  assumes e: "endsListing srv seed n"
    and st: "pageCount st = n" "nextUrl st = pageUrl srv seed n"
      "seenPageUrls st = set (map (pageUrl srv seed) [0..<n])"
  shows "\<exists>tr st'. listStep srv st = Done tr (Inr st')"
  using e st
  by (auto simp: endsListing_def listStep_def Let_def split: fetched.splits)

lemma listLoop_run:
  assumes P: "\<forall>k<n. servesPage srv seed k (pages ! k)"
    and D: "distinct (map (pageUrl srv seed) [0..<n])"
    and E: "endsListing srv seed n"
  shows "i \<le> n \<Longrightarrow> pageCount st = i \<Longrightarrow> nextUrl st = pageUrl srv seed i \<Longrightarrow>
     seenPageUrls st = set (map (pageUrl srv seed) [0..<i]) \<Longrightarrow>
     \<exists>tr st'. listLoop (Suc (n - i) + m) srv st = Some (tr, Inr st')
        \<and> concat (map (pageItems srv seed) [i..<i + length tr]) =
            concat (map (pageItems srv seed) [i..<n])"
proof (induction "n - i" arbitrary: i st)
  case 0
  then have i: "i = n" by simp
  from endsListing_step [OF E] 0(3,4,5) i obtain tr st'
    where d: "listStep srv st = Done tr (Inr st')" by blast
  from listStep_Done [OF d] 0(3,4) i
  have "tr = [] \<or> tr = [nextUrl st] \<and> pageItems srv seed n = []"
    by (auto simp: pageItems_def)
  then have "concat (map (pageItems srv seed) [i..<i + length tr]) =
      concat (map (pageItems srv seed) [i..<n])"
    using i by auto
  with d i show ?case by auto
next
  case (Suc d)
  then have lt: "i < n" by simp
  have fresh: "pageUrl srv seed i \<notin> seenPageUrls st"
  proof
    assume "pageUrl srv seed i \<in> seenPageUrls st"
    then obtain j where j: "j < i" "pageUrl srv seed j = pageUrl srv seed i"
      using Suc.prems(4) by auto
    from D have "inj_on (pageUrl srv seed) {0..<n}"
      by (simp add: distinct_map)
    with j lt have "j = i" by (auto simp: inj_on_def)
    with j show False by simp
  qed
  from servesPage_step [OF P [rule_format, OF lt] Suc.prems(2,3) fresh]
  obtain st1 where m: "listStep srv st = More (pageUrl srv seed i) st1" by blast
  note f = listStep_More [OF m]
  have "\<exists>tr st'. listLoop (Suc (n - Suc i) + m) srv st1 = Some (tr, Inr st')
        \<and> concat (map (pageItems srv seed) [Suc i..<Suc i + length tr]) =
            concat (map (pageItems srv seed) [Suc i..<n])"
  proof (rule Suc.hyps(1))
    show "d = n - Suc i" using Suc.hyps(2) by simp
    show "Suc i \<le> n" using lt by simp
    show "pageCount st1 = Suc i" using f Suc.prems(2) by simp
    show "nextUrl st1 = pageUrl srv seed (Suc i)" using f Suc.prems(2) by simp
    show "seenPageUrls st1 = set (map (pageUrl srv seed) [0..<Suc i])"
      using f Suc.prems(4) by auto
  qed
  then obtain tr st' where
    l: "listLoop (Suc (n - Suc i) + m) srv st1 = Some (tr, Inr st')"
    and c: "concat (map (pageItems srv seed) [Suc i..<Suc i + length tr]) =
            concat (map (pageItems srv seed) [Suc i..<n])"
    by blast
  have fuel: "Suc (n - i) + m = Suc (Suc (n - Suc i) + m)" using lt by simp
  have "listLoop (Suc (n - i) + m) srv st = Some (pageUrl srv seed i # tr, Inr st')"
    unfolding fuel using m l by simp
  moreover have "concat (map (pageItems srv seed) [i..<i + length (pageUrl srv seed i # tr)]) =
      concat (map (pageItems srv seed) [i..<n])"
    using c lt by (simp add: upt_add_Suc upt_conv_Cons del: upt_Suc)
  ultimately show ?case by blast
qed

lemma servesPage_items: "servesPage srv seed k json \<Longrightarrow> pageItems srv seed k = json"
  by (auto simp: servesPage_def pageItems_def pageItemsAt_def split: fetched.splits)

text \<open>
  C7.  Let the server answer with the pages \<^verbatim>\<open>pages\<close>, each an ok response with a
  non-empty array, at pairwise distinct URLs chained by their next links, and let the
  listing end after them.  Then the lister returns (fuel of one more than the number of
  pages suffices, and so does any more), and its list is the concatenation of all these
  pages with every item dropped whose identifier occurred earlier: the order of first
  insertion is kept, the identifiers are pairwise distinct, and an identifier that
  occurs on any of the pages, on one page or on several, occurs in the list exactly
  once.
\<close>

theorem listLoop_deduplicates:
  assumes "\<forall>k<length pages. servesPage srv seed k (pages ! k)"
    and "distinct (map (pageUrl srv seed) [0..<length pages])"
    and "endsListing srv seed (length pages)"
  shows "\<exists>tr st. listLoop (Suc (length pages) + m) srv (listerInit seed) = Some (tr, Inr st)
     \<and> allCommits st = firstOccurrences (concat pages)
     \<and> subseq (allCommits st) (concat pages)
     \<and> distinct (ids (allCommits st))
     \<and> (\<forall>s\<in>set (ids (concat pages)). count_list (ids (allCommits st)) s = 1)"
proof -
  let ?n = "length pages"
  from listLoop_run [OF assms, of 0 "listerInit seed" m]
  obtain tr st where
    l: "listLoop (Suc ?n + m) srv (listerInit seed) = Some (tr, Inr st)"
    and c: "concat (map (pageItems srv seed) [0..<length tr]) =
        concat (map (pageItems srv seed) [0..<?n])"
    by (auto simp: listerInit_def)
  have "map (pageItems srv seed) [0..<?n] = map (\<lambda>k. pages ! k) [0..<?n]"
    using assms(1) by (simp add: servesPage_items)
  then have p: "concat (map (pageItems srv seed) [0..<length tr]) = concat pages"
    using c by (simp add: map_nth)
  have "allCommits st = allCommits (foldl addCommit (listerInit seed) (concat pages))"
    using listLoop_pages [OF l, of 0 seed] p by (simp add: listerInit_def)
  also have "\<dots> = allCommits (listerInit seed) @
      firstOccurrences (filter (unseen (seenShas (listerInit seed))) (concat pages))"
    by (rule foldl_addCommit_firstOccurrences)
  also have "\<dots> = firstOccurrences (concat pages)"
    by (simp add: listerInit_def unseen_def split: option.splits)
  finally have a: "allCommits st = firstOccurrences (concat pages)" .
  have b: "subseq (allCommits st) (concat pages)"
    unfolding a by (rule subseq_firstOccurrences)
  have d: "distinct (ids (allCommits st))"
    unfolding a by (rule distinct_ids_firstOccurrences)
  have e: "\<forall>s\<in>set (ids (concat pages)). count_list (ids (allCommits st)) s = 1"
    using d by (simp add: a set_ids_firstOccurrences count_list_distinct)
  from l a b d e show ?thesis by blast
qed


lemma duplicateFixture_urls:
  "pageUrl duplicateFixture ''p1'' 0 = ''p1''"
  "pageUrl duplicateFixture ''p1'' (Suc 0) = ''p2''"
  "pageUrl duplicateFixture ''p1'' (Suc (Suc 0)) = ''p3''"
  "pageUrl duplicateFixture ''p1'' (Suc (Suc (Suc 0))) = []"
  by (simp_all add: duplicateFixture_def nextLink_okPage_next nextLink_okPage_none wfUrl_def)

lemma duplicateFixture_run:
  "listLoop (Suc (length [[commitOf ''a'', commitOf ''b''], [commitOf ''b'', commitOf ''c''],
       [commitOf ''a'', commitOf ''d'']]) + 0) duplicateFixture (listerInit ''p1'') =
     Some ([''p1'', ''p2'', ''p3''],
       Inr \<lparr>allCommits = [commitOf ''a'', commitOf ''b'', commitOf ''c'', commitOf ''d''],
            seenShas = {''d'', ''c'', ''b'', ''a''}, seenPageUrls = {''p3'', ''p2'', ''p1''},
            nextUrl = [], pageCount = 3, listed = \<lparr>current = 4, total = 0, pct = 0\<rparr>\<rparr>)"
  by (simp add: listStep_def listerInit_def duplicateFixture_def okPage_def ok_def mergePage_def
      addCommit_def truthySha_def commitOf_def nextLink_next nextLink_absent wfUrl_def Let_def)

theorem listLoop_deduplicates_witness:
  "servesPage duplicateFixture ''p1'' 0 [commitOf ''a'', commitOf ''b'']
   \<and> servesPage duplicateFixture ''p1'' (Suc 0) [commitOf ''b'', commitOf ''c'']
   \<and> servesPage duplicateFixture ''p1'' (Suc (Suc 0)) [commitOf ''a'', commitOf ''d'']
   \<and> distinct [pageUrl duplicateFixture ''p1'' 0, pageUrl duplicateFixture ''p1'' (Suc 0),
        pageUrl duplicateFixture ''p1'' (Suc (Suc 0))]
   \<and> endsListing duplicateFixture ''p1'' (Suc (Suc (Suc 0)))
   \<and> listLoop (Suc (Suc (Suc (Suc 0)))) duplicateFixture (listerInit ''p1'') =
     Some ([''p1'', ''p2'', ''p3''],
       Inr \<lparr>allCommits = [commitOf ''a'', commitOf ''b'', commitOf ''c'', commitOf ''d''],
            seenShas = {''d'', ''c'', ''b'', ''a''}, seenPageUrls = {''p3'', ''p2'', ''p1''},
            nextUrl = [], pageCount = 3, listed = \<lparr>current = 4, total = 0, pct = 0\<rparr>\<rparr>)
   \<and> [commitOf ''a'', commitOf ''b'', commitOf ''c'', commitOf ''d''] =
       firstOccurrences [commitOf ''a'', commitOf ''b'', commitOf ''b'', commitOf ''c'',
         commitOf ''a'', commitOf ''d'']
   \<and> count_list (ids [commitOf ''a'', commitOf ''b'', commitOf ''c'', commitOf ''d'']) ''a'' = 1
   \<and> count_list (ids [commitOf ''a'', commitOf ''b'', commitOf ''c'', commitOf ''d'']) ''b'' = 1"
proof -
  let ?pages = "[[commitOf ''a'', commitOf ''b''], [commitOf ''b'', commitOf ''c''],
       [commitOf ''a'', commitOf ''d'']]"
  have s0: "servesPage duplicateFixture ''p1'' 0 [commitOf ''a'', commitOf ''b'']"
    and s1: "servesPage duplicateFixture ''p1'' (Suc 0) [commitOf ''b'', commitOf ''c'']"
    and s2: "servesPage duplicateFixture ''p1'' (Suc (Suc 0)) [commitOf ''a'', commitOf ''d'']"
    unfolding servesPage_def duplicateFixture_urls
    by (simp_all add: duplicateFixture_def okPage_def ok_def)
  have h1: "\<forall>k<length ?pages. servesPage duplicateFixture ''p1'' k (?pages ! k)"
    using s0 s1 s2 by (simp add: less_Suc_eq)
  have d: "distinct [pageUrl duplicateFixture ''p1'' 0, pageUrl duplicateFixture ''p1'' (Suc 0),
        pageUrl duplicateFixture ''p1'' (Suc (Suc 0))]"
    unfolding duplicateFixture_urls by simp
  have h2: "distinct (map (pageUrl duplicateFixture ''p1'') [0..<length ?pages])"
    using d by (simp add: upt_conv_Cons)
  have e: "endsListing duplicateFixture ''p1'' (Suc (Suc (Suc 0)))"
    unfolding endsListing_def duplicateFixture_urls by simp
  have h3: "endsListing duplicateFixture ''p1'' (length ?pages)"
    using e by simp
  from listLoop_deduplicates [OF h1 h2 h3, of 0]
  obtain tr st where
    l: "listLoop (Suc (length ?pages) + 0) duplicateFixture (listerInit ''p1'') = Some (tr, Inr st)"
    and a: "allCommits st = firstOccurrences (concat ?pages)"
    and c: "\<forall>s\<in>set (ids (concat ?pages)). count_list (ids (allCommits st)) s = 1"
    by blast
  from l duplicateFixture_run
  have st: "allCommits st = [commitOf ''a'', commitOf ''b'', commitOf ''c'', commitOf ''d'']"
    by simp
  have m: "''a'' \<in> set (ids (concat ?pages))" "''b'' \<in> set (ids (concat ?pages))"
    by (simp_all add: ids_def map_filter_simps truthySha_def commitOf_def)
  from c m st have
    "count_list (ids [commitOf ''a'', commitOf ''b'', commitOf ''c'', commitOf ''d'']) ''a'' = 1"
    "count_list (ids [commitOf ''a'', commitOf ''b'', commitOf ''c'', commitOf ''d'']) ''b'' = 1"
    by auto
  moreover from a st have "[commitOf ''a'', commitOf ''b'', commitOf ''c'', commitOf ''d''] =
       firstOccurrences [commitOf ''a'', commitOf ''b'', commitOf ''b'', commitOf ''c'',
         commitOf ''a'', commitOf ''d'']"
    by simp
  moreover from duplicateFixture_run have
    "listLoop (Suc (Suc (Suc (Suc 0)))) duplicateFixture (listerInit ''p1'') =
     Some ([''p1'', ''p2'', ''p3''],
       Inr \<lparr>allCommits = [commitOf ''a'', commitOf ''b'', commitOf ''c'', commitOf ''d''],
            seenShas = {''d'', ''c'', ''b'', ''a''}, seenPageUrls = {''p3'', ''p2'', ''p1''},
            nextUrl = [], pageCount = 3, listed = \<lparr>current = 4, total = 0, pct = 0\<rparr>\<rparr>)"
    by simp
  ultimately show ?thesis using s0 s1 s2 d e by (intro conjI)
qed

section \<open>Properties of the detail-fetch workers\<close>














section \<open>Properties of the orchestration\<close>

lemma listingUrl_nonempty: "listingUrl enc d b \<noteq> []"
  by (simp add: listingUrl_def)

lemma listLoop_first_page_empty:
  assumes "seed \<noteq> []" and "srv 0 seed = Resp r" and "ok r"
    and "items r = None \<or> items r = Some []"
  shows "\<exists>st. listLoop (Suc fuel) srv (listerInit seed) = Some ([seed], Inr st) \<and> allCommits st = []"
  using assms
  by (auto simp: listStep_def listerInit_def Let_def)

text \<open>
  C9.  When the listing loop returns with no commit collected, the call ends with the
  error message \<^verbatim>\<open>No commits found\<close>, the phase idle, no result record (one left by an
  earlier run is deleted) and the loading flag cleared, whatever the later stages
  would compute.  The listing returns with no commit when the first page is ok and its
  body is not a non-empty array.
\<close>

theorem no_commits_found:
  assumes "trim (username d) \<noteq> []" and "trim (repo d) \<noteq> []"
    and "probeMetadata meta = Inr (defaultBranch, metaWarning)"
    and "listLoop fuel srv (listerInit (listingUrl enc d defaultBranch)) = Some (tr, Inr st)"
    and "allCommits st = []"
  shows "analyzeCommits derive enc (Some d) meta srv fuel s =
       Some (s\<lparr>loading := False, phase := ''idle'', error := ''No commits found'', result := None\<rparr>)"
  using assms
  by (simp add: analyzeCommits_def tryBlock_def catchBlock_def Let_def)

lemma emptyFixture_run:
  "listLoop (Suc 0) emptyFixture
     (listerInit (listingUrl (\<lambda>x. x) \<lparr>username = ''octocat'', repo = ''hello'', token = []\<rparr> ''main'')) =
   Some ([listingUrl (\<lambda>x. x) \<lparr>username = ''octocat'', repo = ''hello'', token = []\<rparr> ''main''],
     Inr ((listerInit (listingUrl (\<lambda>x. x) \<lparr>username = ''octocat'', repo = ''hello'', token = []\<rparr> ''main''))
       \<lparr>seenPageUrls := {listingUrl (\<lambda>x. x) \<lparr>username = ''octocat'', repo = ''hello'', token = []\<rparr> ''main''},
        pageCount := 1\<rparr>))"
  using listingUrl_nonempty [of "\<lambda>x. x" "\<lparr>username = ''octocat'', repo = ''hello'', token = []\<rparr>" "''main''"]
  by (simp add: listStep_def listerInit_def emptyFixture_def okPage_def ok_def Let_def)

theorem no_commits_found_witness:
  "trim (username \<lparr>username = ''octocat'', repo = ''hello'', token = []\<rparr>) \<noteq> []
   \<and> trim (repo \<lparr>username = ''octocat'', repo = ''hello'', token = []\<rparr>) \<noteq> []
   \<and> probeMetadata (MetaResp \<lparr>metaStatus = 200, metaJson = True, default_branch = ''main'',
        metaText = []\<rparr>) = Inr (''main'', [])
   \<and> analyzeCommits (\<lambda>cs. Inr (length cs)) (\<lambda>x. x)
        (Some \<lparr>username = ''octocat'', repo = ''hello'', token = []\<rparr>)
        (MetaResp \<lparr>metaStatus = 200, metaJson = True, default_branch = ''main'', metaText = []\<rparr>)
        emptyFixture (Suc 0) \<lparr>phase = ''idle'', error = [], result = Some 3, loading = False\<rparr> =
      Some \<lparr>phase = ''idle'', error = ''No commits found'', result = None, loading = False\<rparr>"
proof -
  let ?d = "\<lparr>username = ''octocat'', repo = ''hello'', token = []\<rparr>"
  let ?m = "MetaResp \<lparr>metaStatus = 200, metaJson = True, default_branch = ''main'', metaText = []\<rparr>"
  have h1: "trim (username ?d) \<noteq> []" and h2: "trim (repo ?d) \<noteq> []"
    by (simp_all add: trim_def isSpace_def)
  have h3: "probeMetadata ?m = Inr (''main'', [])"
    by (simp add: probeMetadata_def)
  have h5: "allCommits ((listerInit (listingUrl (\<lambda>x. x) ?d ''main''))
       \<lparr>seenPageUrls := {listingUrl (\<lambda>x. x) ?d ''main''}, pageCount := 1\<rparr>) = []"
    by (simp add: listerInit_def)
  note r = no_commits_found [OF h1 h2 h3 emptyFixture_run h5,
      of "\<lambda>cs. Inr (length cs)" "\<lparr>phase = ''idle'', error = [], result = Some 3, loading = False\<rparr>"]
  from h1 h2 h3 r show ?thesis by simp
qed

end
